theory Spec2Isabelle
  imports Main "HOL-Library.Word" "HOL-Library.Monad_Syntax" "HOL-Library.Log_Nat"
    "HOL-Library.Char_ord" "HOL-Library.List_Lexorder"
begin

unbundle bit_operations_syntax

section \<open>The deterministic coin\<close>

text \<open>
  \<^verbatim>\<open>flipCoin(unsigned key, unsigned previousFlips)\<close>: the four bytes of the key are
  XOR-ed into a \<^verbatim>\<open>char\<close> and bit \<^verbatim>\<open>previousFlips % 8\<close> of it is tested.  The mask
  \<^verbatim>\<open>1 << previousFlips\<close> is at most 128, so the test reads the same bit of the byte
  whether \<^verbatim>\<open>char\<close> is signed or not.  The counter is a \<^typ>\<open>nat\<close>: 8 divides
  \<open>2 ^ 32\<close>, so reducing it modulo \<open>2 ^ 32\<close> first changes nothing.
\<close>

definition flipCoin_unsigned :: "32 word \<Rightarrow> nat \<Rightarrow> bool" where
  "flipCoin_unsigned key previousFlips =
     (let first8Bits = (key AND 0xFF000000) div 0x01000000;
          next8Bits = (key AND 0x00FF0000) div 0x00010000;
          andThen = (key AND 0x0000FF00) div 0x00000100;
          lastBits = key AND 0x000000FF;
          c = (ucast (first8Bits XOR next8Bits XOR andThen XOR lastBits) :: 8 word);
          previousFlips = previousFlips mod 8
      in c AND push_bit previousFlips 1 \<noteq> 0)"

text \<open>
  \<^verbatim>\<open>flipCoin(std::string key, unsigned previousFlips)\<close>: \<^verbatim>\<open>c\<close> starts as \<^verbatim>\<open>key[0]\<close>,
  which for the empty string is the terminating null character, and the remaining
  characters are XOR-ed in.
\<close>

definition char_at0 :: "string \<Rightarrow> 8 word" where
  "char_at0 key = (case key of [] \<Rightarrow> 0 | x # _ \<Rightarrow> of_char x)"

fun xor_from :: "8 word \<Rightarrow> string \<Rightarrow> 8 word" where
  "xor_from c [] = c"
| "xor_from c (x # xs) = xor_from (c XOR of_char x) xs"

definition flipCoin_string :: "string \<Rightarrow> nat \<Rightarrow> bool" where
  "flipCoin_string key previousFlips =
     (let c = xor_from (char_at0 key) (tl key);
          previousFlips = previousFlips mod 8
      in c AND push_bit previousFlips 1 \<noteq> 0)"

section \<open>Nodes, the store and the skip list\<close>

text \<open>
  A pointer is an optional address, \<^verbatim>\<open>nullptr\<close> being \<open>None\<close>.  The fields of
  \<^verbatim>\<open>struct SkipNode\<close> keep their names (\<open>val\<close> for \<^verbatim>\<open>value\<close>, \<open>top'\<close> for \<^verbatim>\<open>top\<close>).
\<close>

type_synonym addr = nat
type_synonym ptr = "nat option"

record ('k, 'v) SkipNode =
  key :: 'k
  val :: 'v
  p_inf :: bool
  n_inf :: bool
  "next" :: ptr
  previous :: ptr
  top' :: ptr
  bottom :: ptr

type_synonym ('k, 'v) heap = "addr \<Rightarrow> ('k, 'v) SkipNode"

text \<open>
  The private members of \<^verbatim>\<open>class SkipList\<close>, together with the store that holds the
  nodes and the next address \<^verbatim>\<open>new\<close> hands out.
\<close>

record ('k, 'v) SkipList =
  num_layers :: nat
  num_keys :: nat
  head :: ptr
  tail :: ptr
  store :: "('k, 'v) heap"
  fresh :: addr

text \<open>
  What the template is instantiated with: the overload of \<^verbatim>\<open>flipCoin\<close> that is selected
  for the key type, and the value-initialised \<^verbatim>\<open>Key()\<close> and \<^verbatim>\<open>Value()\<close> that the default
  constructor of a node stores.
\<close>

record ('k, 'v) tmpl =
  flipCoin :: "'k \<Rightarrow> nat \<Rightarrow> bool"
  Key0 :: 'k
  Value0 :: 'v

definition unsigned_tmpl :: "(32 word, 32 word) tmpl" where
  "unsigned_tmpl = \<lparr>flipCoin = flipCoin_unsigned, Key0 = 0, Value0 = 0\<rparr>"

definition string_tmpl :: "(string, string) tmpl" where
  "string_tmpl = \<lparr>flipCoin = flipCoin_string, Key0 = [], Value0 = []\<rparr>"

datatype exn = RuntimeException

text \<open>\<^verbatim>\<open>SkipNode(Key k, Value v)\<close> and \<^verbatim>\<open>SkipNode()\<close>.\<close>

definition SkipNode_kv :: "'k \<Rightarrow> 'v \<Rightarrow> ('k, 'v) SkipNode" where
  "SkipNode_kv k v = \<lparr>key = k, val = v, p_inf = False, n_inf = False,
     next = None, previous = None, top' = None, bottom = None\<rparr>"

definition SkipNode_default :: "('k, 'v) tmpl \<Rightarrow> ('k, 'v) SkipNode" where
  "SkipNode_default T = SkipNode_kv (Key0 T) (Value0 T)"

text \<open>
  \<^verbatim>\<open>new\<close>: the pointer it returns is the next unused address \<open>fresh s\<close>, and \<open>alloc\<close>
  stores the constructed node there.
\<close>

definition alloc :: "('k, 'v) SkipNode \<Rightarrow> ('k, 'v) SkipList \<Rightarrow> ('k, 'v) SkipList" where
  "alloc n s = s\<lparr>store := (store s)(fresh s := n), fresh := Suc (fresh s)\<rparr>"

text \<open>Assignments to one field of the node at an address.\<close>

definition set_next :: "addr \<Rightarrow> ptr \<Rightarrow> ('k, 'v) SkipList \<Rightarrow> ('k, 'v) SkipList" where
  "set_next a p s = s\<lparr>store := (store s)(a := (store s a)\<lparr>next := p\<rparr>)\<rparr>"

definition set_previous :: "addr \<Rightarrow> ptr \<Rightarrow> ('k, 'v) SkipList \<Rightarrow> ('k, 'v) SkipList" where
  "set_previous a p s = s\<lparr>store := (store s)(a := (store s a)\<lparr>previous := p\<rparr>)\<rparr>"

definition set_top :: "addr \<Rightarrow> ptr \<Rightarrow> ('k, 'v) SkipList \<Rightarrow> ('k, 'v) SkipList" where
  "set_top a p s = s\<lparr>store := (store s)(a := (store s a)\<lparr>top' := p\<rparr>)\<rparr>"

definition set_bottom :: "addr \<Rightarrow> ptr \<Rightarrow> ('k, 'v) SkipList \<Rightarrow> ('k, 'v) SkipList" where
  "set_bottom a p s = s\<lparr>store := (store s)(a := (store s a)\<lparr>bottom := p\<rparr>)\<rparr>"

definition set_n_inf :: "addr \<Rightarrow> bool \<Rightarrow> ('k, 'v) SkipList \<Rightarrow> ('k, 'v) SkipList" where
  "set_n_inf a b s = s\<lparr>store := (store s)(a := (store s a)\<lparr>n_inf := b\<rparr>)\<rparr>"

definition set_p_inf :: "addr \<Rightarrow> bool \<Rightarrow> ('k, 'v) SkipList \<Rightarrow> ('k, 'v) SkipList" where
  "set_p_inf a b s = s\<lparr>store := (store s)(a := (store s a)\<lparr>p_inf := b\<rparr>)\<rparr>"

definition set_val :: "addr \<Rightarrow> 'v \<Rightarrow> ('k, 'v) SkipList \<Rightarrow> ('k, 'v) SkipList" where
  "set_val a v s = s\<lparr>store := (store s)(a := (store s a)\<lparr>val := v\<rparr>)\<rparr>"

section \<open>The operations\<close>

text \<open>
  A call that does not return normally (a loop that never ends, or a dereferenced
  \<^verbatim>\<open>nullptr\<close>) has the result \<open>None\<close>.  A call that throws returns
  \<open>Some (Inl RuntimeException)\<close>.
\<close>

text \<open>The constructor \<^verbatim>\<open>SkipList()\<close>, started on a store of default nodes.\<close>

definition SkipList_init :: "('k, 'v) tmpl \<Rightarrow> ('k, 'v) SkipList" where
  "SkipList_init T =
     (let s = \<lparr>num_layers = 0, num_keys = 0, head = None, tail = None,
                store = (\<lambda>_. SkipNode_default T), fresh = 0\<rparr>;
          hd_a = fresh s;
          s = alloc (SkipNode_default T) s;
          s = s\<lparr>head := Some hd_a\<rparr>;
          tl_a = fresh s;
          s = alloc (SkipNode_default T) s;
          s = s\<lparr>tail := Some tl_a\<rparr>;
          temp_head = fresh s;
          s = alloc (SkipNode_default T) s;
          temp_tail = fresh s;
          s = alloc (SkipNode_default T) s;
          s = set_n_inf hd_a True s;
          s = set_p_inf tl_a True s;
          s = set_n_inf temp_head True s;
          s = set_p_inf temp_tail True s;
          s = set_next hd_a (Some tl_a) s;
          s = set_previous tl_a (Some hd_a) s;
          s = set_next temp_head (Some temp_tail) s;
          s = set_previous temp_tail (Some temp_head) s;
          s = set_bottom hd_a (Some temp_head) s;
          s = set_bottom tl_a (Some temp_tail) s;
          s = set_top temp_head (Some hd_a) s;
          s = set_top temp_tail (Some tl_a) s
      in s\<lparr>num_layers := 2, num_keys := 0\<rparr>)"

definition size_sl :: "('k, 'v) SkipList \<Rightarrow> nat" where
  "size_sl s = num_keys s"

definition isEmpty :: "('k, 'v) SkipList \<Rightarrow> bool" where
  "isEmpty s = (num_keys s = 0)"

definition numLayers :: "('k, 'v) SkipList \<Rightarrow> nat" where
  "numLayers s = num_layers s"

text \<open>
  The inner loop of every search,
  \<^verbatim>\<open>while (!temp->next->p_inf && k >= temp->next->key) temp = temp->next;\<close>
\<close>

partial_function (option) walk_right ::
  "('k::linorder, 'v) heap \<Rightarrow> 'k \<Rightarrow> addr \<Rightarrow> addr option" where
  "walk_right h k temp =
     (case next (h temp) of
        None \<Rightarrow> None
      | Some n \<Rightarrow> if \<not> p_inf (h n) \<and> k \<ge> key (h n) then walk_right h k n else Some temp)"

text \<open>
  The outer loop,
  \<^verbatim>\<open>while (temp->bottom) { temp = temp->bottom; <inner loop> }\<close>
\<close>

partial_function (option) descend ::
  "('k::linorder, 'v) heap \<Rightarrow> 'k \<Rightarrow> addr \<Rightarrow> addr option" where
  "descend h k temp =
     (case bottom (h temp) of
        None \<Rightarrow> Some temp
      | Some b \<Rightarrow> Option.bind (walk_right h k b) (descend h k))"

text \<open>
  The search that \<^verbatim>\<open>height\<close>, \<^verbatim>\<open>nextKey\<close>, \<^verbatim>\<open>previousKey\<close>, \<^verbatim>\<open>find\<close> and
  \<^verbatim>\<open>insert\<close> each start with: \<^verbatim>\<open>temp = head\<close>, then the two loops.
\<close>

definition locate :: "('k::linorder, 'v) SkipList \<Rightarrow> 'k \<Rightarrow> addr option" where
  "locate s k = Option.bind (head s) (descend (store s) k)"

text \<open>\<^verbatim>\<open>while (temp->top) { temp = temp->top; height++; }\<close>\<close>

partial_function (option) count_top :: "('k, 'v) heap \<Rightarrow> addr \<Rightarrow> nat \<Rightarrow> nat option" where
  "count_top h temp hgt =
     (case top' (h temp) of
        None \<Rightarrow> Some hgt
      | Some t \<Rightarrow> count_top h t (hgt + 1))"

definition height :: "('k::linorder, 'v) SkipList \<Rightarrow> 'k \<Rightarrow> (exn + nat) option" where
  "height s k =
     do { temp \<leftarrow> locate s k;
          if key (store s temp) \<noteq> k \<or> n_inf (store s temp) then Some (Inl RuntimeException)
          else map_option Inr (count_top (store s) temp 1) }"

definition nextKey :: "('k::linorder, 'v) SkipList \<Rightarrow> 'k \<Rightarrow> (exn + 'k) option" where
  "nextKey s k =
     do { temp \<leftarrow> locate s k;
          if key (store s temp) \<noteq> k \<or> n_inf (store s temp) then Some (Inl RuntimeException)
          else do { n \<leftarrow> next (store s temp);
                    if p_inf (store s n) then Some (Inl RuntimeException)
                    else Some (Inr (key (store s n))) } }"

definition previousKey :: "('k::linorder, 'v) SkipList \<Rightarrow> 'k \<Rightarrow> (exn + 'k) option" where
  "previousKey s k =
     do { temp \<leftarrow> locate s k;
          if key (store s temp) \<noteq> k \<or> n_inf (store s temp) then Some (Inl RuntimeException)
          else do { p \<leftarrow> previous (store s temp);
                    if n_inf (store s p) then Some (Inl RuntimeException)
                    else Some (Inr (key (store s p))) } }"

text \<open>
  \<^verbatim>\<open>find\<close> returns a reference to the \<^verbatim>\<open>value\<close> field of the node it stops at:
  \<open>find_ref\<close> is the address of that node, \<open>find_sl\<close> reads the value through it and
  \<open>assign\<close> writes through it.
\<close>

definition find_ref :: "('k::linorder, 'v) SkipList \<Rightarrow> 'k \<Rightarrow> (exn + addr) option" where
  "find_ref s k =
     do { temp \<leftarrow> locate s k;
          if key (store s temp) = k \<and> \<not> n_inf (store s temp) then Some (Inr temp)
          else Some (Inl RuntimeException) }"

definition find_sl :: "('k::linorder, 'v) SkipList \<Rightarrow> 'k \<Rightarrow> (exn + 'v) option" where
  "find_sl s k = map_option (map_sum id (\<lambda>a. val (store s a))) (find_ref s k)"

definition assign :: "addr \<Rightarrow> 'v \<Rightarrow> ('k, 'v) SkipList \<Rightarrow> ('k, 'v) SkipList" where
  "assign r v s = set_val r v s"

text \<open>
  The four assignments that put \<^verbatim>\<open>new_node\<close> behind \<^verbatim>\<open>temp\<close>; \<^verbatim>\<open>insert\<close> has them twice,
  for the bottom layer and inside the promotion loop.
\<close>

definition link_after :: "addr \<Rightarrow> addr \<Rightarrow> ('k, 'v) SkipList \<Rightarrow> ('k, 'v) SkipList option" where
  "link_after new_node temp s =
     (let s = set_next new_node (next (store s temp)) s;
          s = set_previous new_node (Some temp) s
      in do { tn \<leftarrow> next (store s temp);
              let s = set_previous tn (Some new_node) s;
              Some (set_next temp (Some new_node) s) })"

text \<open>The body of \<^verbatim>\<open>if (height + 1 >= num_layers)\<close>: a new top layer of two sentinels.\<close>

definition add_layer :: "('k, 'v) tmpl \<Rightarrow> ('k, 'v) SkipList \<Rightarrow> ('k, 'v) SkipList option" where
  "add_layer T s =
     (let s = s\<lparr>num_layers := num_layers s + 1\<rparr>;
          temp_head = fresh s;
          s = alloc (SkipNode_default T) s;
          temp_tail = fresh s;
          s = alloc (SkipNode_default T) s;
          s = set_n_inf temp_head True s;
          s = set_p_inf temp_tail True s;
          s = set_next temp_head (Some temp_tail) s;
          s = set_previous temp_tail (Some temp_head) s;
          s = set_bottom temp_head (head s) s;
          s = set_bottom temp_tail (tail s) s
      in do { h \<leftarrow> head s;
              let s = set_top h (Some temp_head) s;
              t \<leftarrow> tail s;
              let s = set_top t (Some temp_tail) s;
              Some (s\<lparr>head := Some temp_head, tail := Some temp_tail\<rparr>) })"

text \<open>\<^verbatim>\<open>while (temp->previous && temp->top == nullptr) temp = temp->previous;\<close>\<close>

partial_function (option) walk_left :: "('k, 'v) heap \<Rightarrow> addr \<Rightarrow> addr option" where
  "walk_left h temp =
     (case previous (h temp) of
        None \<Rightarrow> Some temp
      | Some p \<Rightarrow> if top' (h temp) = None then walk_left h p else Some temp)"

text \<open>
  The promotion loop of \<^verbatim>\<open>insert\<close>.  Its state is the skip list and the locals
  \<^verbatim>\<open>temp\<close>, \<^verbatim>\<open>new_node\<close> and \<^verbatim>\<open>height\<close> (here \<open>hgt\<close>); it returns them as they are
  when the loop ends.
\<close>

partial_function (option) promote ::
  "('k, 'v) tmpl \<Rightarrow> 'k \<Rightarrow> 'v \<Rightarrow> nat \<Rightarrow> ('k, 'v) SkipList \<Rightarrow> addr \<Rightarrow> addr \<Rightarrow> nat
     \<Rightarrow> (('k, 'v) SkipList \<times> addr \<times> addr \<times> nat) option" where
  "promote T k v max_flips s temp new_node hgt =
     (if flipCoin T k hgt \<and> hgt + 1 < max_flips then
        do { let hgt = hgt + 1;
             s \<leftarrow> (if hgt + 1 \<ge> num_layers s then add_layer T s else Some s);
             temp \<leftarrow> walk_left (store s) temp;
             temp \<leftarrow> top' (store s temp);
             let new_node_top = fresh s;
             let s = alloc (SkipNode_kv k v) s;
             s \<leftarrow> link_after new_node_top temp s;
             let s = set_bottom new_node_top (Some new_node) s;
             let s = set_top new_node (Some new_node_top) s;
             promote T k v max_flips s temp new_node_top hgt }
      else Some (s, temp, new_node, hgt))"

text \<open>
  \<^verbatim>\<open>max_flips\<close>: \<^verbatim>\<open>3 * ceil(log2(num_keys))\<close> is computed in double precision and
  converted back; it is modelled by the exact \<^const>\<open>ceillog2\<close>.  \<^verbatim>\<open>num_keys\<close> and
  \<^verbatim>\<open>num_layers\<close> are natural numbers: a count of nodes that are all in memory does
  not reach the range where the machine types wrap.
\<close>

definition max_flips_of :: "nat \<Rightarrow> nat" where
  "max_flips_of n = (if n \<le> 16 then 12 else 3 * ceillog2 n)"

text \<open>
  \<open>insert_run\<close> is \<^verbatim>\<open>insert\<close> with the final locals of the promotion loop still
  visible; \<open>insert_sl\<close> returns the boolean and the skip list.
\<close>

definition insert_run ::
  "('k::linorder, 'v) tmpl \<Rightarrow> ('k, 'v) SkipList \<Rightarrow> 'k \<Rightarrow> 'v
     \<Rightarrow> (bool \<times> ('k, 'v) SkipList \<times> addr \<times> addr \<times> nat) option" where
  "insert_run T s k v =
     do { temp \<leftarrow> locate s k;
          if \<not> n_inf (store s temp) \<and> key (store s temp) = k then Some (False, s, temp, temp, 0)
          else do {
            let new_node = fresh s;
            let s = alloc (SkipNode_kv k v) s;
            s \<leftarrow> link_after new_node temp s;
            let s = s\<lparr>num_keys := num_keys s + 1\<rparr>;
            let max_flips = max_flips_of (num_keys s);
            st \<leftarrow> promote T k v max_flips s temp new_node 0;
            Some (True, st) } }"

definition insert_sl ::
  "('k::linorder, 'v) tmpl \<Rightarrow> ('k, 'v) SkipList \<Rightarrow> 'k \<Rightarrow> 'v
     \<Rightarrow> (bool \<times> ('k, 'v) SkipList) option" where
  "insert_sl T s k v = map_option (\<lambda>r. (fst r, fst (snd r))) (insert_run T s k v)"

text \<open>
  \<^verbatim>\<open>allKeysInOrder\<close>: down the \<^verbatim>\<open>bottom\<close> pointers from \<^verbatim>\<open>head\<close>, then along the
  bottom layer up to the sentinel.
\<close>

partial_function (option) go_bottom :: "('k, 'v) heap \<Rightarrow> addr \<Rightarrow> addr option" where
  "go_bottom h temp =
     (case bottom (h temp) of
        None \<Rightarrow> Some temp
      | Some b \<Rightarrow> go_bottom h b)"

partial_function (option) collect_keys ::
  "('k, 'v) heap \<Rightarrow> addr \<Rightarrow> 'k list \<Rightarrow> 'k list option" where
  "collect_keys h temp keys =
     (case next (h temp) of
        None \<Rightarrow> None
      | Some n \<Rightarrow> if p_inf (h n) = False then collect_keys h n (keys @ [key (h n)])
                  else Some keys)"

definition allKeysInOrder :: "('k, 'v) SkipList \<Rightarrow> 'k list option" where
  "allKeysInOrder s =
     do { hd_a \<leftarrow> head s;
          temp \<leftarrow> go_bottom (store s) hd_a;
          collect_keys (store s) temp [] }"

definition isSmallestKey :: "('k, 'v) SkipList \<Rightarrow> 'k \<Rightarrow> bool option" where
  "isSmallestKey s k =
     do { hd_a \<leftarrow> head s;
          temp \<leftarrow> go_bottom (store s) hd_a;
          n \<leftarrow> next (store s temp);
          if key (store s n) = k then Some True else Some False }"

text \<open>\<^verbatim>\<open>while (temp->next->p_inf == false) temp = temp->next;\<close>\<close>

partial_function (option) go_last :: "('k, 'v) heap \<Rightarrow> addr \<Rightarrow> addr option" where
  "go_last h temp =
     (case next (h temp) of
        None \<Rightarrow> None
      | Some n \<Rightarrow> if p_inf (h n) = False then go_last h n else Some temp)"

definition isLargestKey :: "('k, 'v) SkipList \<Rightarrow> 'k \<Rightarrow> bool option" where
  "isLargestKey s k =
     do { hd_a \<leftarrow> head s;
          temp \<leftarrow> go_bottom (store s) hd_a;
          temp \<leftarrow> go_last (store s) temp;
          if key (store s temp) = k then Some True else Some False }"


section \<open>The specification: towers of nodes\<close>

text \<open>
  The number of promotions of one \<^verbatim>\<open>insert\<close>: the promotion loop goes on while the coin
  shows heads for the key and \<^verbatim>\<open>height + 1 < max_flips\<close>, and neither depends on the skip
  list.  \<open>flips T k max_flips hgt\<close> is the value of \<^verbatim>\<open>height\<close> at which a loop that
  is at \<open>hgt\<close> stops.
\<close>

function flips :: "('k, 'v) tmpl \<Rightarrow> 'k \<Rightarrow> nat \<Rightarrow> nat \<Rightarrow> nat" where
  "flips T k max_flips hgt =
     (if flipCoin T k hgt \<and> hgt + 1 < max_flips then flips T k max_flips (hgt + 1) else hgt)"
  by pat_completeness auto
termination
  by (relation "measure (\<lambda>(T, k, m, h). m - h)") auto

text \<open>
  A doubly linked segment: the addresses of \<open>as\<close> are linked in this order by the forward
  pointers \<open>fw\<close> and the backward pointers \<open>bw\<close>; the backward pointer of the first is
  \<open>p\<close> and the forward pointer of the last is \<open>q\<close>.  With \<^verbatim>\<open>next\<close> and \<^verbatim>\<open>previous\<close> it
  describes a layer, with \<^verbatim>\<open>top\<close> and \<^verbatim>\<open>bottom\<close> the tower of the nodes of one key.
\<close>

fun first_or :: "addr list \<Rightarrow> ptr \<Rightarrow> ptr" where
  "first_or [] q = q"
| "first_or (a # _) q = Some a"

fun dlseg :: "(addr \<Rightarrow> ptr) \<Rightarrow> (addr \<Rightarrow> ptr) \<Rightarrow> ptr \<Rightarrow> addr list \<Rightarrow> ptr \<Rightarrow> bool" where
  "dlseg fw bw p [] q = True"
| "dlseg fw bw p (a # as) q = (bw a = p \<and> fw a = first_or as q \<and> dlseg fw bw (Some a) as q)"

text \<open>
  The shape of a skip list, as lists of addresses: the tower of negative-infinity
  sentinels, the towers of the keys in ascending order, and the tower of
  positive-infinity sentinels, each from the bottom layer upwards.  Layer \<open>j\<close> consists
  of the \<open>j\<close>-th nodes of the towers that are high enough.
\<close>

record ghost =
  hcol :: "addr list"
  cols :: "addr list list"
  tcol :: "addr list"

definition all_cols :: "ghost \<Rightarrow> addr list list" where
  "all_cols g = hcol g # cols g @ [tcol g]"

definition layer :: "nat \<Rightarrow> addr list list \<Rightarrow> addr list" where
  "layer j cs = map (\<lambda>c. c ! j) (filter (\<lambda>c. j < length c) cs)"

text \<open>The fields of the nodes of a skip list, as functions of the address.\<close>

definition nx :: "('k, 'v) SkipList \<Rightarrow> addr \<Rightarrow> ptr" where
  "nx s = (\<lambda>a. next (store s a))"

definition pv :: "('k, 'v) SkipList \<Rightarrow> addr \<Rightarrow> ptr" where
  "pv s = (\<lambda>a. previous (store s a))"

definition tp :: "('k, 'v) SkipList \<Rightarrow> addr \<Rightarrow> ptr" where
  "tp s = (\<lambda>a. top' (store s a))"

definition bt :: "('k, 'v) SkipList \<Rightarrow> addr \<Rightarrow> ptr" where
  "bt s = (\<lambda>a. bottom (store s a))"

definition kf :: "('k, 'v) SkipList \<Rightarrow> addr \<Rightarrow> 'k" where
  "kf s = (\<lambda>a. key (store s a))"

definition vf :: "('k, 'v) SkipList \<Rightarrow> addr \<Rightarrow> 'v" where
  "vf s = (\<lambda>a. val (store s a))"

definition ninf :: "('k, 'v) SkipList \<Rightarrow> addr \<Rightarrow> bool" where
  "ninf s = (\<lambda>a. n_inf (store s a))"

definition pinf :: "('k, 'v) SkipList \<Rightarrow> addr \<Rightarrow> bool" where
  "pinf s = (\<lambda>a. p_inf (store s a))"

text \<open>
  The invariant of the class: the store holds towers \<open>g\<close> of distinct allocated nodes.
  The two sentinel towers are as high as \<^verbatim>\<open>num_layers\<close>, the towers of the keys are lower
  (so the top layer has the sentinels only) and their keys ascend strictly; every tower is
  linked by \<^verbatim>\<open>top\<close> and \<^verbatim>\<open>bottom\<close>, every layer by \<^verbatim>\<open>next\<close> and \<^verbatim>\<open>previous\<close>; \<^verbatim>\<open>head\<close> and
  \<^verbatim>\<open>tail\<close> are the top sentinels and \<^verbatim>\<open>num_keys\<close> counts the towers of keys.
\<close>

definition skip_inv :: "('k::linorder, 'v) SkipList \<Rightarrow> ghost \<Rightarrow> bool" where
  "skip_inv s g \<longleftrightarrow>
     2 \<le> num_layers s \<and> length (hcol g) = num_layers s \<and> length (tcol g) = num_layers s \<and>
     (\<forall>c\<in>set (cols g). 1 \<le> length c \<and> length c < num_layers s) \<and>
     distinct (concat (all_cols g)) \<and> (\<forall>a\<in>set (concat (all_cols g)). a < fresh s) \<and>
     (\<forall>c\<in>set (all_cols g). dlseg (tp s) (bt s) None c None) \<and>
     (\<forall>j<num_layers s. dlseg (nx s) (pv s) None (layer j (all_cols g)) None) \<and>
     (\<forall>a\<in>set (hcol g). ninf s a) \<and> (\<forall>a\<in>set (tcol g). pinf s a) \<and>
     (\<forall>c\<in>set (cols g). \<forall>a\<in>set c. \<not> ninf s a \<and> \<not> pinf s a \<and> kf s a = kf s (hd c)) \<and>
     sorted_wrt (<) (map (\<lambda>c. kf s (hd c)) (cols g)) \<and>
     head s = Some (last (hcol g)) \<and> tail s = Some (last (tcol g)) \<and>
     num_keys s = length (cols g)"

text \<open>
  Where the search for \<open>k\<close> is: the towers with a key up to \<open>k\<close> and the others; in layer
  \<open>j\<close> the search stops in the last tower that reaches the layer among the sentinel tower
  and the former; \<open>pred_node\<close> is the node it ends at in the bottom layer.
\<close>

definition lower :: "('k::linorder, 'v) SkipList \<Rightarrow> ghost \<Rightarrow> 'k \<Rightarrow> addr list list" where
  "lower s g k = takeWhile (\<lambda>c. kf s (hd c) \<le> k) (cols g)"

definition upper :: "('k::linorder, 'v) SkipList \<Rightarrow> ghost \<Rightarrow> 'k \<Rightarrow> addr list list" where
  "upper s g k = dropWhile (\<lambda>c. kf s (hd c) \<le> k) (cols g)"

definition pos_col :: "('k::linorder, 'v) SkipList \<Rightarrow> ghost \<Rightarrow> 'k \<Rightarrow> nat \<Rightarrow> addr list" where
  "pos_col s g k j = last (filter (\<lambda>c. j < length c) (hcol g # lower s g k))"

definition pred_node :: "('k::linorder, 'v) SkipList \<Rightarrow> ghost \<Rightarrow> 'k \<Rightarrow> addr" where
  "pred_node s g k = hd (last (hcol g # lower s g k))"

definition last_or :: "ptr \<Rightarrow> addr list \<Rightarrow> ptr" where
  "last_or p as = (if as = [] then p else Some (last as))"

text \<open>
  What a skip list stands for: the list of its keys in ascending order, each with the value
  in its bottom node (the one \<^verbatim>\<open>find\<close> returns) and the height of its tower.
\<close>

definition tower_of :: "('k, 'v) SkipList \<Rightarrow> addr list \<Rightarrow> 'k \<times> 'v \<times> nat" where
  "tower_of s c = (kf s (hd c), vf s (hd c), length c)"

definition towers :: "('k, 'v) SkipList \<Rightarrow> ghost \<Rightarrow> ('k \<times> 'v \<times> nat) list" where
  "towers s g = map (tower_of s) (cols g)"

definition abs_of :: "('k::linorder, 'v) SkipList \<Rightarrow> ('k \<times> 'v \<times> nat) list \<Rightarrow> bool" where
  "abs_of s A \<longleftrightarrow> (\<exists>g. skip_inv s g \<and> towers s g = A)"

definition ins_tower :: "'k::linorder \<Rightarrow> 'v \<Rightarrow> nat \<Rightarrow> ('k \<times> 'v \<times> nat) list \<Rightarrow> ('k \<times> 'v \<times> nat) list" where
  "ins_tower k v h A =
     takeWhile (\<lambda>x. fst x \<le> k) A @ (k, v, h) # dropWhile (\<lambda>x. fst x \<le> k) A"

text \<open>
  The skip lists a program can have: constructed, then changed by \<^verbatim>\<open>insert\<close> and by
  assignments through the references that \<^verbatim>\<open>find\<close> returns.
\<close>

inductive reachable :: "('k::linorder, 'v) tmpl \<Rightarrow> ('k, 'v) SkipList \<Rightarrow> bool" for T where
  init: "reachable T (SkipList_init T)"
| ins: "reachable T s \<Longrightarrow> insert_sl T s k v = Some (b, s') \<Longrightarrow> reachable T s'"
| upd: "reachable T s \<Longrightarrow> find_ref s k = Some (Inr r) \<Longrightarrow> reachable T (assign r v s)"

text \<open>
  The skip list together with, for every key in it, the \<^verbatim>\<open>max_flips\<close> that \<^verbatim>\<open>insert\<close>
  computed when the key was inserted: from \<^verbatim>\<open>num_keys\<close> after the increment.
\<close>

inductive inserted_with ::
  "('k::linorder, 'v) tmpl \<Rightarrow> ('k, 'v) SkipList \<Rightarrow> ('k \<rightharpoonup> nat) \<Rightarrow> bool" for T where
  init: "inserted_with T (SkipList_init T) Map.empty"
| new: "inserted_with T s M \<Longrightarrow> insert_sl T s k v = Some (True, s') \<Longrightarrow>
     inserted_with T s' (M(k \<mapsto> max_flips_of (num_keys s + 1)))"
| dup: "inserted_with T s M \<Longrightarrow> insert_sl T s k v = Some (False, s') \<Longrightarrow> inserted_with T s' M"
| upd: "inserted_with T s M \<Longrightarrow> find_ref s k = Some (Inr r) \<Longrightarrow> inserted_with T (assign r v s) M"

text \<open>Inserting a list of key-value pairs, each insert being successful.\<close>

fun insert_all ::
  "('k::linorder, 'v) tmpl \<Rightarrow> ('k, 'v) SkipList \<Rightarrow> ('k \<times> 'v) list \<Rightarrow> ('k, 'v) SkipList option" where
  "insert_all T s [] = Some s"
| "insert_all T s (kv # kvs) =
     (case insert_sl T s (fst kv) (snd kv) of
        None \<Rightarrow> None
      | Some r \<Rightarrow> if fst r then insert_all T (snd r) kvs else None)"

text \<open>The skip list with the one key 5, bound to 7.\<close>

definition example_sl :: "(32 word, 32 word) SkipList" where
  "example_sl =
     (case insert_sl unsigned_tmpl (SkipList_init unsigned_tmpl) 5 7 of
        None \<Rightarrow> SkipList_init unsigned_tmpl
      | Some r \<Rightarrow> snd r)"

text \<open>
  The scenario of the test \<^verbatim>\<open>InvolvedHeightsTest\<close>: the keys of a list are inserted in
  turn (each with itself as value) and \<^verbatim>\<open>height\<close> is recorded after each insert; then one
  more key is inserted and its height and the number of layers are recorded.
\<close>

fun insert_heights ::
  "('k::linorder, 'k) tmpl \<Rightarrow> ('k, 'k) SkipList \<Rightarrow> 'k list
     \<Rightarrow> (('k, 'k) SkipList \<times> (exn + nat) list) option" where
  "insert_heights T s [] = Some (s, [])"
| "insert_heights T s (i # is) =
     do { r \<leftarrow> insert_sl T s i i;
          h \<leftarrow> height (snd r) i;
          r2 \<leftarrow> insert_heights T (snd r) is;
          Some (fst r2, h # snd r2) }"

definition involved_heights ::
  "32 word list \<Rightarrow> 32 word \<Rightarrow> ((exn + nat) list \<times> bool \<times> (exn + nat) \<times> nat) option" where
  "involved_heights ks magic =
     do { r \<leftarrow> insert_heights unsigned_tmpl (SkipList_init unsigned_tmpl) ks;
          r2 \<leftarrow> insert_sl unsigned_tmpl (fst r) magic magic;
          h \<leftarrow> height (snd r2) magic;
          Some (snd r, fst r2, h, numLayers (snd r2)) }"

section \<open>Doubly linked segments\<close>

lemma last_or_simps [simp]:
  "last_or p [] = p" "last_or p (a # as) = Some (last (a # as))"
  "as \<noteq> [] \<Longrightarrow> last_or p as = Some (last as)"
  "last_or p (as @ [a]) = Some a"
  by (auto simp: last_or_def)

lemma first_or_append: "first_or (as @ bs) q = first_or as (first_or bs q)"
  by (cases as) auto

lemma dlseg_append:
  "dlseg fw bw p (as @ bs) q \<longleftrightarrow>
     dlseg fw bw p as (first_or bs q) \<and> dlseg fw bw (last_or p as) bs q"
  by (induction as arbitrary: p) (auto simp: first_or_append)

lemma dlseg_frame:
  "\<forall>a\<in>set as. fw' a = fw a \<and> bw' a = bw a \<Longrightarrow> dlseg fw' bw' p as q = dlseg fw bw p as q"
  by (induction as arbitrary: p) auto

lemma dlseg_snoc:
  assumes "dlseg fw bw p as None" "as \<noteq> []" "n \<notin> set as" "distinct as"
  shows "dlseg (fw(last as := Some n, n := None)) (bw(n := Some (last as))) p (as @ [n]) None"
  using assms
proof (induction as arbitrary: p)
  case Nil then show ?case by simp
next
  case (Cons a as)
  show ?case
  proof (cases as)
    case Nil with Cons.prems show ?thesis by auto
  next
    case (Cons b bs)
    with Cons.prems Cons.IH[of "Some a"] show ?thesis by auto
  qed
qed

lemma dlseg_insert_after:
  assumes "dlseg fw bw p (A @ t # b # B) q" "n \<notin> set (A @ t # b # B)" "distinct (A @ t # b # B)"
  shows "dlseg (fw(n := Some b, t := Some n)) (bw(n := Some t, b := Some n)) p (A @ t # n # b # B) q"
proof -
  let ?fw = "fw(n := Some b, t := Some n)" and ?bw = "bw(n := Some t, b := Some n)"
  from assms have A: "dlseg fw bw p A (Some t)" and t: "bw t = last_or p A" "fw t = Some b"
    and b: "bw b = Some t" "fw b = first_or B q" and B: "dlseg fw bw (Some b) B q"
    by (auto simp: dlseg_append)
  have "dlseg ?fw ?bw p A (Some t) = dlseg fw bw p A (Some t)"
    using assms(2,3) by (intro dlseg_frame) auto
  moreover have "dlseg ?fw ?bw (Some b) B q = dlseg fw bw (Some b) B q"
    using assms(2,3) by (intro dlseg_frame) auto
  ultimately show ?thesis
    using A t b B assms(2,3) by (auto simp: dlseg_append)
qed

section \<open>Layers of a list of towers\<close>

lemma layer_Nil [simp]: "layer j [] = []"
  by (simp add: layer_def)

lemma layer_Cons [simp]:
  "layer j (c # cs) = (if j < length c then c ! j # layer j cs else layer j cs)"
  by (simp add: layer_def)

lemma layer_append [simp]: "layer j (A @ B) = layer j A @ layer j B"
  by (simp add: layer_def)

lemma set_layer_subset: "set (layer j cs) \<subseteq> set (concat cs)"
  by (induction cs) (auto simp: layer_def)

lemma distinct_layer: "distinct (concat cs) \<Longrightarrow> distinct (layer j cs)"
proof (induction cs)
  case Nil then show ?case by simp
next
  case (Cons c cs)
  then show ?case using set_layer_subset[of j cs] by (auto dest: nth_mem)
qed

section \<open>The fields of the nodes under assignments\<close>

lemmas proj_defs = nx_def pv_def tp_def bt_def kf_def vf_def ninf_def pinf_def

lemma proj_fold [simp]:
  "next (store s a) = nx s a" "previous (store s a) = pv s a" "top' (store s a) = tp s a"
  "bottom (store s a) = bt s a" "key (store s a) = kf s a" "val (store s a) = vf s a"
  "n_inf (store s a) = ninf s a" "p_inf (store s a) = pinf s a"
  by (simp_all add: proj_defs)

lemma set_next_proj [simp]:
  "nx (set_next x p s) = (nx s)(x := p)" "pv (set_next x p s) = pv s"
  "tp (set_next x p s) = tp s" "bt (set_next x p s) = bt s" "kf (set_next x p s) = kf s"
  "vf (set_next x p s) = vf s" "ninf (set_next x p s) = ninf s" "pinf (set_next x p s) = pinf s"
  "head (set_next x p s) = head s" "tail (set_next x p s) = tail s"
  "num_layers (set_next x p s) = num_layers s" "num_keys (set_next x p s) = num_keys s"
  "fresh (set_next x p s) = fresh s"
  by (auto simp: proj_defs set_next_def fun_eq_iff simp del: proj_fold)

lemma set_previous_proj [simp]:
  "nx (set_previous x p s) = nx s" "pv (set_previous x p s) = (pv s)(x := p)"
  "tp (set_previous x p s) = tp s" "bt (set_previous x p s) = bt s" "kf (set_previous x p s) = kf s"
  "vf (set_previous x p s) = vf s" "ninf (set_previous x p s) = ninf s"
  "pinf (set_previous x p s) = pinf s"
  "head (set_previous x p s) = head s" "tail (set_previous x p s) = tail s"
  "num_layers (set_previous x p s) = num_layers s" "num_keys (set_previous x p s) = num_keys s"
  "fresh (set_previous x p s) = fresh s"
  by (auto simp: proj_defs set_previous_def fun_eq_iff simp del: proj_fold)

lemma set_top_proj [simp]:
  "nx (set_top x p s) = nx s" "pv (set_top x p s) = pv s"
  "tp (set_top x p s) = (tp s)(x := p)" "bt (set_top x p s) = bt s" "kf (set_top x p s) = kf s"
  "vf (set_top x p s) = vf s" "ninf (set_top x p s) = ninf s" "pinf (set_top x p s) = pinf s"
  "head (set_top x p s) = head s" "tail (set_top x p s) = tail s"
  "num_layers (set_top x p s) = num_layers s" "num_keys (set_top x p s) = num_keys s"
  "fresh (set_top x p s) = fresh s"
  by (auto simp: proj_defs set_top_def fun_eq_iff simp del: proj_fold)

lemma set_bottom_proj [simp]:
  "nx (set_bottom x p s) = nx s" "pv (set_bottom x p s) = pv s"
  "tp (set_bottom x p s) = tp s" "bt (set_bottom x p s) = (bt s)(x := p)"
  "kf (set_bottom x p s) = kf s"
  "vf (set_bottom x p s) = vf s" "ninf (set_bottom x p s) = ninf s"
  "pinf (set_bottom x p s) = pinf s"
  "head (set_bottom x p s) = head s" "tail (set_bottom x p s) = tail s"
  "num_layers (set_bottom x p s) = num_layers s" "num_keys (set_bottom x p s) = num_keys s"
  "fresh (set_bottom x p s) = fresh s"
  by (auto simp: proj_defs set_bottom_def fun_eq_iff simp del: proj_fold)

lemma set_n_inf_proj [simp]:
  "nx (set_n_inf x b s) = nx s" "pv (set_n_inf x b s) = pv s"
  "tp (set_n_inf x b s) = tp s" "bt (set_n_inf x b s) = bt s" "kf (set_n_inf x b s) = kf s"
  "vf (set_n_inf x b s) = vf s" "ninf (set_n_inf x b s) = (ninf s)(x := b)"
  "pinf (set_n_inf x b s) = pinf s"
  "head (set_n_inf x b s) = head s" "tail (set_n_inf x b s) = tail s"
  "num_layers (set_n_inf x b s) = num_layers s" "num_keys (set_n_inf x b s) = num_keys s"
  "fresh (set_n_inf x b s) = fresh s"
  by (auto simp: proj_defs set_n_inf_def fun_eq_iff simp del: proj_fold)

lemma set_p_inf_proj [simp]:
  "nx (set_p_inf x b s) = nx s" "pv (set_p_inf x b s) = pv s"
  "tp (set_p_inf x b s) = tp s" "bt (set_p_inf x b s) = bt s" "kf (set_p_inf x b s) = kf s"
  "vf (set_p_inf x b s) = vf s" "ninf (set_p_inf x b s) = ninf s"
  "pinf (set_p_inf x b s) = (pinf s)(x := b)"
  "head (set_p_inf x b s) = head s" "tail (set_p_inf x b s) = tail s"
  "num_layers (set_p_inf x b s) = num_layers s" "num_keys (set_p_inf x b s) = num_keys s"
  "fresh (set_p_inf x b s) = fresh s"
  by (auto simp: proj_defs set_p_inf_def fun_eq_iff simp del: proj_fold)

lemma set_val_proj [simp]:
  "nx (set_val x w s) = nx s" "pv (set_val x w s) = pv s"
  "tp (set_val x w s) = tp s" "bt (set_val x w s) = bt s" "kf (set_val x w s) = kf s"
  "vf (set_val x w s) = (vf s)(x := w)" "ninf (set_val x w s) = ninf s"
  "pinf (set_val x w s) = pinf s"
  "head (set_val x w s) = head s" "tail (set_val x w s) = tail s"
  "num_layers (set_val x w s) = num_layers s" "num_keys (set_val x w s) = num_keys s"
  "fresh (set_val x w s) = fresh s"
  by (auto simp: proj_defs set_val_def fun_eq_iff simp del: proj_fold)

lemma alloc_proj [simp]:
  "nx (alloc n s) = (nx s)(fresh s := next n)" "pv (alloc n s) = (pv s)(fresh s := previous n)"
  "tp (alloc n s) = (tp s)(fresh s := top' n)" "bt (alloc n s) = (bt s)(fresh s := bottom n)"
  "kf (alloc n s) = (kf s)(fresh s := key n)" "vf (alloc n s) = (vf s)(fresh s := val n)"
  "ninf (alloc n s) = (ninf s)(fresh s := n_inf n)" "pinf (alloc n s) = (pinf s)(fresh s := p_inf n)"
  "head (alloc n s) = head s" "tail (alloc n s) = tail s"
  "num_layers (alloc n s) = num_layers s" "num_keys (alloc n s) = num_keys s"
  "fresh (alloc n s) = Suc (fresh s)"
  by (auto simp: proj_defs alloc_def fun_eq_iff simp del: proj_fold)

lemma field_update_proj [simp]:
  "nx (s\<lparr>head := x\<rparr>) = nx s" "pv (s\<lparr>head := x\<rparr>) = pv s" "tp (s\<lparr>head := x\<rparr>) = tp s"
  "bt (s\<lparr>head := x\<rparr>) = bt s" "kf (s\<lparr>head := x\<rparr>) = kf s" "vf (s\<lparr>head := x\<rparr>) = vf s"
  "ninf (s\<lparr>head := x\<rparr>) = ninf s" "pinf (s\<lparr>head := x\<rparr>) = pinf s"
  "nx (s\<lparr>tail := x\<rparr>) = nx s" "pv (s\<lparr>tail := x\<rparr>) = pv s" "tp (s\<lparr>tail := x\<rparr>) = tp s"
  "bt (s\<lparr>tail := x\<rparr>) = bt s" "kf (s\<lparr>tail := x\<rparr>) = kf s" "vf (s\<lparr>tail := x\<rparr>) = vf s"
  "ninf (s\<lparr>tail := x\<rparr>) = ninf s" "pinf (s\<lparr>tail := x\<rparr>) = pinf s"
  "nx (s\<lparr>num_layers := m\<rparr>) = nx s" "pv (s\<lparr>num_layers := m\<rparr>) = pv s"
  "tp (s\<lparr>num_layers := m\<rparr>) = tp s" "bt (s\<lparr>num_layers := m\<rparr>) = bt s"
  "kf (s\<lparr>num_layers := m\<rparr>) = kf s" "vf (s\<lparr>num_layers := m\<rparr>) = vf s"
  "ninf (s\<lparr>num_layers := m\<rparr>) = ninf s" "pinf (s\<lparr>num_layers := m\<rparr>) = pinf s"
  "nx (s\<lparr>num_keys := m\<rparr>) = nx s" "pv (s\<lparr>num_keys := m\<rparr>) = pv s"
  "tp (s\<lparr>num_keys := m\<rparr>) = tp s" "bt (s\<lparr>num_keys := m\<rparr>) = bt s"
  "kf (s\<lparr>num_keys := m\<rparr>) = kf s" "vf (s\<lparr>num_keys := m\<rparr>) = vf s"
  "ninf (s\<lparr>num_keys := m\<rparr>) = ninf s" "pinf (s\<lparr>num_keys := m\<rparr>) = pinf s"
  by (simp_all add: proj_defs del: proj_fold)

lemma SkipNode_kv_sel [simp]:
  "key (SkipNode_kv k v) = k" "val (SkipNode_kv k v) = v" "p_inf (SkipNode_kv k v) = False"
  "n_inf (SkipNode_kv k v) = False" "next (SkipNode_kv k v) = None"
  "previous (SkipNode_kv k v) = None" "top' (SkipNode_kv k v) = None"
  "bottom (SkipNode_kv k v) = None"
  by (simp_all add: SkipNode_kv_def)

section \<open>The constructor establishes the invariant\<close>

lemma init_fields:
  "num_layers (SkipList_init T) = 2" "num_keys (SkipList_init T) = 0"
  "head (SkipList_init T) = Some 0" "tail (SkipList_init T) = Some 1"
  "fresh (SkipList_init T) = 4"
  by (simp_all add: SkipList_init_def Let_def cong: let_weak_cong)

lemma inv_init: "skip_inv (SkipList_init T) \<lparr>hcol = [2, 0], cols = [], tcol = [3, 1]\<rparr>"
  unfolding skip_inv_def
  apply (simp add: init_fields all_cols_def less_Suc_eq all_conj_distrib numeral_eq_Suc)
  apply (simp add: SkipList_init_def SkipNode_default_def Let_def cong: let_weak_cong)
  done

section \<open>The search\<close>

lemma walk_right_seg:
  assumes "dlseg (nx s) (pv s) p (t # S1 @ z # S2) q"
    and "\<forall>a\<in>set S1. \<not> pinf s a \<and> kf s a \<le> k"
    and "pinf s z \<or> k < kf s z"
  shows "walk_right (store s) k t = Some (last (t # S1))"
  using assms
proof (induction S1 arbitrary: t p)
  case Nil
  then show ?case by (subst walk_right.simps) auto
next
  case (Cons a S1)
  from Cons.prems have "walk_right (store s) k a = Some (last (a # S1))"
    by (intro Cons.IH[of "Some t"]) auto
  with Cons.prems show ?case by (subst walk_right.simps) auto
qed

lemma dlseg_nth:
  assumes "dlseg fw bw p c q" "Suc i < length c"
  shows "bw (c ! Suc i) = Some (c ! i)" "fw (c ! i) = Some (c ! Suc i)"
  using assms
proof (induction c arbitrary: p i)
  case Nil
  { case 1 then show ?case by simp }
  { case 2 then show ?case by simp }
next
  case (Cons a c)
  { case 1 then show ?case using Cons.IH(1)[of "Some a" "i - 1"] by (cases c; cases i) auto }
  { case 2 then show ?case using Cons.IH(2)[of "Some a" "i - 1"] by (cases c; cases i) auto }
qed

lemma dlseg_ends:
  assumes "dlseg fw bw p c q" "c \<noteq> []"
  shows "bw (hd c) = p" "fw (last c) = q"
  using assms by (induction c arbitrary: p) (auto split: if_splits)

lemma last_filter_split:
  "filter P xs \<noteq> [] \<Longrightarrow> \<exists>A B. xs = A @ last (filter P xs) # B \<and> (\<forall>b\<in>set B. \<not> P b)"
proof (induction xs rule: rev_induct)
  case Nil then show ?case by simp
next
  case (snoc x xs)
  show ?case
  proof (cases "P x")
    case True
    then show ?thesis by (intro exI[of _ xs] exI[of _ "[]"]) simp
  next
    case False
    with snoc obtain A B where "xs = A @ last (filter P xs) # B" "\<forall>b\<in>set B. \<not> P b" by auto
    with False show ?thesis by (intro exI[of _ A] exI[of _ "B @ [x]"]) auto
  qed
qed

lemma sorted_dropWhile_gt:
  "sorted_wrt (<) (map f xs) \<Longrightarrow> \<forall>x\<in>set (dropWhile (\<lambda>x. f x \<le> (k::'a::linorder)) xs). k < f x"
  by (induction xs) (auto simp: not_le)

lemma cols_split: "cols g = lower s g k @ upper s g k"
  by (simp add: lower_def upper_def)

lemma lower_le: "c \<in> set (lower s g k) \<Longrightarrow> kf s (hd c) \<le> k"
  by (auto simp: lower_def dest: set_takeWhileD)

lemma lower_subset: "set (lower s g k) \<subseteq> set (cols g)"
  by (auto simp: lower_def dest: set_takeWhileD)

lemma upper_subset: "set (upper s g k) \<subseteq> set (cols g)"
  by (auto simp: upper_def dest: set_dropWhileD)

lemma invD:
  assumes "skip_inv s g"
  shows inv_nl: "2 \<le> num_layers s"
    and inv_hlen: "length (hcol g) = num_layers s"
    and inv_tlen: "length (tcol g) = num_layers s"
    and inv_clen: "\<And>c. c \<in> set (cols g) \<Longrightarrow> 1 \<le> length c \<and> length c < num_layers s"
    and inv_distinct: "distinct (concat (all_cols g))"
    and inv_fresh: "\<And>a. a \<in> set (concat (all_cols g)) \<Longrightarrow> a < fresh s"
    and inv_vert: "\<And>c. c \<in> set (all_cols g) \<Longrightarrow> dlseg (tp s) (bt s) None c None"
    and inv_horiz: "\<And>j. j < num_layers s \<Longrightarrow>
          dlseg (nx s) (pv s) None (layer j (all_cols g)) None"
    and inv_ninf: "\<And>a. a \<in> set (hcol g) \<Longrightarrow> ninf s a"
    and inv_pinf: "\<And>a. a \<in> set (tcol g) \<Longrightarrow> pinf s a"
    and inv_col: "\<And>c a. c \<in> set (cols g) \<Longrightarrow> a \<in> set c \<Longrightarrow>
          \<not> ninf s a \<and> \<not> pinf s a \<and> kf s a = kf s (hd c)"
    and inv_sorted: "sorted_wrt (<) (map (\<lambda>c. kf s (hd c)) (cols g))"
    and inv_head: "head s = Some (last (hcol g))"
    and inv_tail: "tail s = Some (last (tcol g))"
    and inv_nk: "num_keys s = length (cols g)"
  using assms unfolding skip_inv_def by blast+

lemma upper_gt: "skip_inv s g \<Longrightarrow> c \<in> set (upper s g k) \<Longrightarrow> k < kf s (hd c)"
  using sorted_dropWhile_gt[of "\<lambda>c. kf s (hd c)" "cols g" k] inv_sorted[of s g]
  by (auto simp: upper_def)

lemma lower_len:
  assumes "skip_inv s g" "c \<in> set (lower s g k)"
  shows "1 \<le> length c" "length c < num_layers s"
  using inv_clen[OF assms(1), of c] assms(2) lower_subset[of s g k] by auto

lemma pos_col_mem:
  assumes "skip_inv s g" "j < num_layers s"
  shows "pos_col s g k j \<in> set (hcol g # lower s g k)" "j < length (pos_col s g k j)"
proof -
  let ?F = "filter (\<lambda>c. j < length c) (hcol g # lower s g k)"
  have ne: "?F \<noteq> []"
    using assms inv_hlen[OF assms(1)] by simp
  from last_in_set[OF ne] have "pos_col s g k j \<in> set ?F"
    unfolding pos_col_def .
  then show "pos_col s g k j \<in> set (hcol g # lower s g k)" "j < length (pos_col s g k j)"
    by (simp_all only: set_filter mem_Collect_eq)
qed

lemma pos_col_top:
  assumes "skip_inv s g"
  shows "pos_col s g k (num_layers s - 1) = hcol g"
proof -
  have "filter (\<lambda>c. num_layers s - 1 < length c) (lower s g k) = []"
    using lower_len(2)[OF assms] by (fastforce simp: filter_empty_conv)
  then show ?thesis
    using inv_hlen[OF assms] inv_nl[OF assms] by (simp add: pos_col_def)
qed

lemma pos_col_0:
  assumes "skip_inv s g"
  shows "pos_col s g k 0 = last (hcol g # lower s g k)"
proof -
  have "filter (\<lambda>c. 0 < length c) (lower s g k) = lower s g k"
    using lower_len(1)[OF assms] by (fastforce simp: filter_id_conv)
  moreover have "hcol g \<noteq> []"
    using inv_hlen[OF assms] inv_nl[OF assms] by auto
  ultimately show ?thesis
    by (simp add: pos_col_def)
qed

lemma hcol_ne: "skip_inv s g \<Longrightarrow> hcol g \<noteq> []" and tcol_ne: "skip_inv s g \<Longrightarrow> tcol g \<noteq> []"
  using inv_hlen[of s g] inv_tlen[of s g] inv_nl[of s g] by auto

lemma layer_nodes:
  assumes "a \<in> set (layer j cs)"
  shows "\<exists>c\<in>set cs. j < length c \<and> a = c ! j"
  using assms by (auto simp: layer_def)

lemma lower_node:
  assumes "skip_inv s g" "a \<in> set (layer j (lower s g k))"
  shows "\<not> pinf s a \<and> \<not> ninf s a \<and> kf s a \<le> k"
proof -
  from layer_nodes[OF assms(2)] obtain c where c: "c \<in> set (lower s g k)" "j < length c" "a = c ! j"
    by auto
  then have "c \<in> set (cols g)" "a \<in> set c" using lower_subset[of s g k] by auto
  from inv_col[OF assms(1) this] lower_le[OF c(1)] show ?thesis by simp
qed

lemma upper_node:
  assumes "skip_inv s g" "a \<in> set (layer j (upper s g k))"
  shows "\<not> pinf s a \<and> \<not> ninf s a \<and> k < kf s a"
proof -
  from layer_nodes[OF assms(2)] obtain c where c: "c \<in> set (upper s g k)" "j < length c" "a = c ! j"
    by auto
  then have "c \<in> set (cols g)" "a \<in> set c" using upper_subset[of s g k] by auto
  from inv_col[OF assms(1) this] upper_gt[OF assms(1) c(1)] show ?thesis by simp
qed

lemma walk_right_pos:
  assumes "skip_inv s g" "Suc i < num_layers s"
  shows "walk_right (store s) k (pos_col s g k (Suc i) ! i) = Some (pos_col s g k i ! i)"
proof -
  let ?pc = "pos_col s g k (Suc i)"
  let ?P = "\<lambda>c. Suc i < length c"
  have ne: "filter ?P (hcol g # lower s g k) \<noteq> []"
    using assms inv_hlen[OF assms(1)] by simp
  from last_filter_split[OF ne] obtain A B where
    AB: "hcol g # lower s g k = A @ ?pc # B" "\<forall>b\<in>set B. \<not> ?P b"
    unfolding pos_col_def by blast
  have pc: "Suc i < length ?pc" using pos_col_mem(2)[OF assms] .
  have Bsub: "set B \<subseteq> set (lower s g k)"
  proof (cases A)
    case Nil with AB(1) show ?thesis by auto
  next
    case (Cons a A') with AB(1) have "lower s g k = A' @ ?pc # B" by simp
    then show ?thesis by (metis Un_iff set_append set_subset_Cons subsetI subset_trans)
  qed
  have "all_cols g = A @ ?pc # B @ upper s g k @ [tcol g]"
    using AB(1) cols_split[of g s k] by (simp add: all_cols_def)
  then have lay: "layer i (all_cols g) =
      layer i A @ (?pc ! i) # layer i B @ layer i (upper s g k) @ [tcol g ! i]"
    using pc assms inv_tlen[OF assms(1)] by simp
  obtain z S2 where z: "layer i (upper s g k) @ [tcol g ! i] = z # S2"
    by (cases "layer i (upper s g k)") auto
  have zprop: "pinf s z \<or> k < kf s z"
  proof (cases "layer i (upper s g k)")
    case Nil
    with z have "z = tcol g ! i" by simp
    then show ?thesis using inv_pinf[OF assms(1), of z] inv_tlen[OF assms(1)] assms(2) by simp
  next
    case (Cons y ys)
    with z have "z \<in> set (layer i (upper s g k))" by simp
    from upper_node[OF assms(1) this] show ?thesis by simp
  qed
  have S1: "\<forall>a\<in>set (layer i B). \<not> pinf s a \<and> kf s a \<le> k"
  proof
    fix a assume "a \<in> set (layer i B)"
    then have "a \<in> set (layer i (lower s g k))"
      using Bsub by (auto simp: layer_def)
    from lower_node[OF assms(1) this] show "\<not> pinf s a \<and> kf s a \<le> k" by simp
  qed
  have "dlseg (nx s) (pv s) None (layer i (all_cols g)) None"
    using inv_horiz[OF assms(1), of i] assms(2) by simp
  then have "dlseg (nx s) (pv s) (last_or None (layer i A)) ((?pc ! i) # layer i B @ z # S2) None"
    unfolding lay z[symmetric] by (simp add: dlseg_append)
  from walk_right_seg[OF this S1 zprop]
  have "walk_right (store s) k (?pc ! i) = Some (last (?pc ! i # layer i B))" .
  moreover have "last (?pc ! i # layer i B) = pos_col s g k i ! i"
  proof -
    have "filter (\<lambda>c. i < length c) (hcol g # lower s g k)
        = filter (\<lambda>c. i < length c) A @ ?pc # filter (\<lambda>c. i < length c) B"
      unfolding AB(1) using pc by simp
    then have "pos_col s g k i = last (?pc # filter (\<lambda>c. i < length c) B)"
      unfolding pos_col_def by simp
    moreover have "last (?pc ! i # layer i B) = last (?pc # filter (\<lambda>c. i < length c) B) ! i"
      unfolding layer_def by (simp add: last_map)
    ultimately show ?thesis by simp
  qed
  ultimately show ?thesis by simp
qed

lemma pos_col_bottom:
  assumes "skip_inv s g" "j < num_layers s"
  shows "bt s (pos_col s g k j ! j) = (case j of 0 \<Rightarrow> None | Suc i \<Rightarrow> Some (pos_col s g k j ! i))"
proof -
  let ?c = "pos_col s g k j"
  have mem: "?c \<in> set (all_cols g)"
    using pos_col_mem(1)[OF assms] lower_subset[of s g k] by (auto simp: all_cols_def)
  have len: "j < length ?c" using pos_col_mem(2)[OF assms] .
  have seg: "dlseg (tp s) (bt s) None ?c None" using inv_vert[OF assms(1) mem] .
  show ?thesis
  proof (cases j)
    case 0
    with len have ne: "?c \<noteq> []" by auto
    from dlseg_ends(1)[OF seg ne] have "bt s (?c ! 0) = None"
      using ne by (simp add: hd_conv_nth)
    with 0 show ?thesis by simp
  next
    case (Suc i)
    with dlseg_nth(1)[OF seg, of i] len show ?thesis by simp
  qed
qed

lemma descend_pos:
  assumes "skip_inv s g" "j < num_layers s"
  shows "descend (store s) k (pos_col s g k j ! j) = Some (pos_col s g k 0 ! 0)"
  using assms(2)
proof (induction j)
  case 0
  then show ?case
    using pos_col_bottom[OF assms(1) 0, of k] by (subst descend.simps) simp
next
  case (Suc i)
  then have i: "i < num_layers s" by simp
  show ?case
    using pos_col_bottom[OF assms(1) Suc.prems, of k] walk_right_pos[OF assms(1) Suc.prems, of k]
      Suc.IH[OF i]
    by (subst descend.simps) simp
qed

lemma locate_pos:
  assumes "skip_inv s g"
  shows "locate s k = Some (pred_node s g k)"
proof -
  have nl: "num_layers s - 1 < num_layers s" "0 < num_layers s" using inv_nl[OF assms] by auto
  have "last (hcol g) = hcol g ! (num_layers s - 1)"
    using inv_hlen[OF assms] hcol_ne[OF assms] by (simp add: last_conv_nth)
  then have "locate s k = descend (store s) k (pos_col s g k (num_layers s - 1) ! (num_layers s - 1))"
    using inv_head[OF assms] pos_col_top[OF assms, of k] by (simp add: locate_def)
  also have "\<dots> = Some (pos_col s g k 0 ! 0)" using descend_pos[OF assms nl(1)] .
  also have "pos_col s g k 0 ! 0 = pred_node s g k"
    using pos_col_mem(2)[OF assms nl(2), of k] pos_col_0[OF assms, of k]
    by (simp add: pred_node_def hd_conv_nth)
  finally show ?thesis .
qed

section \<open>The queries on a skip list that satisfies the invariant\<close>

lemma cols_ne: "skip_inv s g \<Longrightarrow> c \<in> set (cols g) \<Longrightarrow> c \<noteq> []"
  using inv_clen[of s g c] by auto

lemma lower_split_mem:
  assumes "skip_inv s g" "c \<in> set (cols g)" "kf s (hd c) = k"
  obtains L R where "cols g = L @ c # R" "lower s g k = L @ [c]" "upper s g k = R"
proof -
  let ?f = "\<lambda>c. kf s (hd c)"
  from split_list[OF assms(2)] obtain L R where LR: "cols g = L @ c # R" by blast
  from inv_sorted[OF assms(1)] have
    L: "\<forall>l\<in>set L. ?f l \<le> k" and R: "\<forall>r\<in>set R. \<not> ?f r \<le> k"
    unfolding LR using assms(3) by (auto simp: sorted_wrt_append less_le_not_le)
  have tR: "takeWhile (\<lambda>c. ?f c \<le> k) R = []" and dR: "dropWhile (\<lambda>c. ?f c \<le> k) R = R"
    using R by (cases R; simp)+
  have "lower s g k = L @ [c]"
    unfolding lower_def LR using L assms(3) tR by (simp add: takeWhile_append2)
  moreover have "upper s g k = R"
    unfolding upper_def LR using L assms(3) dR by (simp add: dropWhile_append2)
  ultimately show ?thesis using LR that by blast
qed

lemma pred_node_mem:
  assumes "skip_inv s g" "c \<in> set (cols g)" "kf s (hd c) = k"
  shows "pred_node s g k = hd c" "\<not> ninf s (hd c)"
proof -
  from lower_split_mem[OF assms] obtain L R where "lower s g k = L @ [c]" by blast
  then show "pred_node s g k = hd c" by (simp add: pred_node_def)
  show "\<not> ninf s (hd c)" using inv_col[OF assms(1,2), of "hd c"] cols_ne[OF assms(1,2)] by simp
qed

lemma pred_node_absent:
  assumes "skip_inv s g" "k \<notin> (\<lambda>c. kf s (hd c)) ` set (cols g)"
  shows "ninf s (pred_node s g k) \<or> kf s (pred_node s g k) \<noteq> k"
proof (cases "lower s g k = []")
  case True
  then show ?thesis using inv_ninf[OF assms(1), of "hd (hcol g)"] hcol_ne[OF assms(1)]
    by (simp add: pred_node_def)
next
  case False
  then have "last (lower s g k) \<in> set (cols g)" using lower_subset[of s g k] last_in_set by blast
  with assms(2) have "kf s (hd (last (lower s g k))) \<noteq> k" by (auto simp: image_iff)
  with False show ?thesis by (simp add: pred_node_def)
qed

lemma find_ref_inv:
  assumes "skip_inv s g"
  shows "find_ref s k =
    Some (case List.find (\<lambda>c. kf s (hd c) = k) (cols g) of
            None \<Rightarrow> Inl RuntimeException | Some c \<Rightarrow> Inr (hd c))"
proof (cases "List.find (\<lambda>c. kf s (hd c) = k) (cols g)")
  case None
  then have "k \<notin> (\<lambda>c. kf s (hd c)) ` set (cols g)" by (auto simp: find_None_iff)
  from pred_node_absent[OF assms this] None show ?thesis
    by (auto simp: find_ref_def locate_pos[OF assms])
next
  case (Some c)
  then have "c \<in> set (cols g)" "kf s (hd c) = k" by (auto simp: find_Some_iff)
  from pred_node_mem[OF assms this] Some this(2) show ?thesis
    by (simp add: find_ref_def locate_pos[OF assms])
qed

lemma count_top_col:
  assumes "dlseg (tp s) (bt s) p c None" "i < length c"
  shows "count_top (store s) (c ! i) n = Some (n + (length c - 1 - i))"
  using assms(2)
proof (induction "length c - 1 - i" arbitrary: i n)
  case 0
  then have "i = length c - 1" "c \<noteq> []" by auto
  then have "c ! i = last c" "c \<noteq> []" by (simp_all add: last_conv_nth)
  with dlseg_ends(2)[OF assms(1)] 0 show ?case by (subst count_top.simps) simp
next
  case (Suc m)
  then have Si: "Suc i < length c" by simp
  from dlseg_nth(2)[OF assms(1) Si] Suc.hyps(1)[of "Suc i" "n + 1"] Suc.hyps(2) Si
  show ?case by (subst count_top.simps) simp
qed

lemma height_inv:
  assumes "skip_inv s g"
  shows "height s k =
    Some (case List.find (\<lambda>c. kf s (hd c) = k) (cols g) of
            None \<Rightarrow> Inl RuntimeException | Some c \<Rightarrow> Inr (length c))"
proof (cases "List.find (\<lambda>c. kf s (hd c) = k) (cols g)")
  case None
  then have "k \<notin> (\<lambda>c. kf s (hd c)) ` set (cols g)" by (auto simp: find_None_iff)
  from pred_node_absent[OF assms this] None show ?thesis
    by (auto simp: height_def locate_pos[OF assms])
next
  case (Some c)
  then have c: "c \<in> set (cols g)" "kf s (hd c) = k" by (auto simp: find_Some_iff)
  then have "c \<in> set (all_cols g)" by (simp add: all_cols_def)
  from inv_vert[OF assms this] have seg: "dlseg (tp s) (bt s) None c None" .
  have ne: "c \<noteq> []" using cols_ne[OF assms c(1)] .
  then have "count_top (store s) (hd c) 1 = Some (length c)"
    using count_top_col[OF seg, of 0 1] by (simp add: hd_conv_nth)
  with pred_node_mem[OF assms c] Some c(2) show ?thesis
    by (simp add: height_def locate_pos[OF assms])
qed

lemma layer0:
  assumes "\<forall>c\<in>set cs. c \<noteq> []"
  shows "layer 0 cs = map hd cs"
  using assms by (induction cs) (auto simp: hd_conv_nth)

lemma layer0_all:
  assumes "skip_inv s g"
  shows "layer 0 (all_cols g) = hd (hcol g) # map hd (cols g) @ [hd (tcol g)]"
  using hcol_ne[OF assms] tcol_ne[OF assms] cols_ne[OF assms]
  by (subst layer0) (auto simp: all_cols_def)

lemma bottom_seg:
  assumes "skip_inv s g"
  shows "dlseg (nx s) (pv s) None (hd (hcol g) # map hd (cols g) @ [hd (tcol g)]) None"
  using inv_horiz[OF assms, of 0] inv_nl[OF assms] layer0_all[OF assms] by simp

lemma nextKey_inv:
  assumes "skip_inv s g"
  shows "nextKey s k =
    Some (case dropWhile (\<lambda>c. kf s (hd c) \<noteq> k) (cols g) of
            [] \<Rightarrow> Inl RuntimeException
          | [c] \<Rightarrow> Inl RuntimeException
          | c # r # _ \<Rightarrow> Inr (kf s (hd r)))"
proof (cases "k \<in> (\<lambda>c. kf s (hd c)) ` set (cols g)")
  case False
  then have "dropWhile (\<lambda>c. kf s (hd c) \<noteq> k) (cols g) = []" by auto
  with pred_node_absent[OF assms False] show ?thesis
    by (auto simp: nextKey_def locate_pos[OF assms] simp del: dropWhile_eq_Nil_conv)
next
  case True
  then obtain c where c: "c \<in> set (cols g)" "kf s (hd c) = k" by auto
  from lower_split_mem[OF assms c] obtain L R where LR: "cols g = L @ c # R" by blast
  have "\<forall>l\<in>set L. kf s (hd l) \<noteq> k"
    using inv_sorted[OF assms] c(2) unfolding LR by (auto simp: sorted_wrt_append)
  then have dw: "dropWhile (\<lambda>c. kf s (hd c) \<noteq> k) (cols g) = c # R"
    unfolding LR using c(2) by (simp add: dropWhile_append2)
  from bottom_seg[OF assms] have nxc: "nx s (hd c) = first_or (map hd R @ [hd (tcol g)]) None"
    unfolding LR by (simp add: dlseg_append)
  show ?thesis
  proof (cases R)
    case Nil
    with nxc have "nx s (hd c) = Some (hd (tcol g))" by simp
    moreover have "pinf s (hd (tcol g))" using inv_pinf[OF assms] tcol_ne[OF assms] by simp
    ultimately show ?thesis
      using pred_node_mem[OF assms c] c(2) dw Nil by (simp add: nextKey_def locate_pos[OF assms])
  next
    case (Cons r R')
    with nxc have "nx s (hd c) = Some (hd r)" by simp
    moreover have "r \<in> set (cols g)" using LR Cons by simp
    then have "\<not> pinf s (hd r)" using inv_col[OF assms, of r "hd r"] cols_ne[OF assms] by simp
    ultimately show ?thesis
      using pred_node_mem[OF assms c] c(2) dw Cons by (simp add: nextKey_def locate_pos[OF assms])
  qed
qed

lemma previousKey_inv:
  assumes "skip_inv s g"
  shows "previousKey s k =
    Some (case dropWhile (\<lambda>c. kf s (hd c) \<noteq> k) (rev (cols g)) of
            [] \<Rightarrow> Inl RuntimeException
          | [c] \<Rightarrow> Inl RuntimeException
          | c # r # _ \<Rightarrow> Inr (kf s (hd r)))"
proof (cases "k \<in> (\<lambda>c. kf s (hd c)) ` set (cols g)")
  case False
  then have "dropWhile (\<lambda>c. kf s (hd c) \<noteq> k) (rev (cols g)) = []" by auto
  with pred_node_absent[OF assms False] show ?thesis
    by (auto simp: previousKey_def locate_pos[OF assms] simp del: dropWhile_eq_Nil_conv)
next
  case True
  then obtain c where c: "c \<in> set (cols g)" "kf s (hd c) = k" by auto
  from lower_split_mem[OF assms c] obtain L R where LR: "cols g = L @ c # R" by blast
  have "\<forall>l\<in>set R. kf s (hd l) \<noteq> k"
    using inv_sorted[OF assms] c(2) unfolding LR by (auto simp: sorted_wrt_append)
  then have "dropWhile (\<lambda>c. kf s (hd c) \<noteq> k) (rev R @ c # rev L)
      = dropWhile (\<lambda>c. kf s (hd c) \<noteq> k) (c # rev L)"
    by (intro dropWhile_append2) auto
  then have dw: "dropWhile (\<lambda>c. kf s (hd c) \<noteq> k) (rev (cols g)) = c # rev L"
    unfolding LR using c(2) by simp
  from bottom_seg[OF assms]
  have "dlseg (nx s) (pv s) None ((hd (hcol g) # map hd L) @ hd c # map hd R @ [hd (tcol g)]) None"
    unfolding LR by simp
  then have pvc: "pv s (hd c) = last_or None (hd (hcol g) # map hd L)"
    unfolding dlseg_append by simp
  show ?thesis
  proof (cases L rule: rev_cases)
    case Nil
    with pvc have "pv s (hd c) = Some (hd (hcol g))" by simp
    moreover have "ninf s (hd (hcol g))" using inv_ninf[OF assms] hcol_ne[OF assms] by simp
    ultimately show ?thesis
      using pred_node_mem[OF assms c] c(2) dw Nil
      by (simp add: previousKey_def locate_pos[OF assms])
  next
    case (snoc L' r)
    with pvc have "pv s (hd c) = Some (hd r)" by simp
    moreover have "r \<in> set (cols g)" using LR snoc by simp
    then have "\<not> ninf s (hd r)" using inv_col[OF assms, of r "hd r"] cols_ne[OF assms] by simp
    ultimately show ?thesis
      using pred_node_mem[OF assms c] c(2) dw snoc
      by (simp add: previousKey_def locate_pos[OF assms])
  qed
qed

lemma go_bottom_col:
  assumes "dlseg (tp s) (bt s) None c None" "i < length c"
  shows "go_bottom (store s) (c ! i) = Some (hd c)"
  using assms(2)
proof (induction i)
  case 0
  then have "c \<noteq> []" by auto
  with dlseg_ends(1)[OF assms(1)] show ?case
    by (subst go_bottom.simps) (simp add: hd_conv_nth)
next
  case (Suc i)
  with dlseg_nth(1)[OF assms(1), of i] show ?case by (subst go_bottom.simps) simp
qed

lemma collect_keys_seg:
  assumes "dlseg (nx s) (pv s) p (t # S1 @ [z]) q" "\<forall>a\<in>set S1. \<not> pinf s a" "pinf s z"
  shows "collect_keys (store s) t acc = Some (acc @ map (kf s) S1)"
  using assms
proof (induction S1 arbitrary: t p acc)
  case Nil
  then show ?case by (subst collect_keys.simps) simp
next
  case (Cons a S1)
  from Cons.prems have "collect_keys (store s) a (acc @ [kf s a]) = Some ((acc @ [kf s a]) @ map (kf s) S1)"
    by (intro Cons.IH[of "Some t"]) auto
  with Cons.prems show ?case by (subst collect_keys.simps) simp
qed

lemma allKeysInOrder_inv:
  assumes "skip_inv s g"
  shows "allKeysInOrder s = Some (map (\<lambda>c. kf s (hd c)) (cols g))"
proof -
  have h: "hcol g \<in> set (all_cols g)" by (simp add: all_cols_def)
  have "go_bottom (store s) (last (hcol g)) = Some (hd (hcol g))"
    using go_bottom_col[OF inv_vert[OF assms h], of "length (hcol g) - 1"] hcol_ne[OF assms]
    by (simp add: last_conv_nth)
  moreover have "collect_keys (store s) (hd (hcol g)) [] = Some ([] @ map (kf s) (map hd (cols g)))"
  proof (rule collect_keys_seg)
    show "dlseg (nx s) (pv s) None (hd (hcol g) # map hd (cols g) @ [hd (tcol g)]) None"
      using bottom_seg[OF assms] .
    show "\<forall>a\<in>set (map hd (cols g)). \<not> pinf s a"
      using inv_col[OF assms] cols_ne[OF assms] by auto
    show "pinf s (hd (tcol g))" using inv_pinf[OF assms] tcol_ne[OF assms] by simp
  qed
  ultimately show ?thesis
    using inv_head[OF assms] by (simp add: allKeysInOrder_def comp_def)
qed

section \<open>Linking a node into a layer and on top of a tower\<close>

lemma invI:
  assumes "2 \<le> num_layers s" "length (hcol g) = num_layers s" "length (tcol g) = num_layers s"
    "\<And>c. c \<in> set (cols g) \<Longrightarrow> 1 \<le> length c \<and> length c < num_layers s"
    "distinct (concat (all_cols g))" "\<And>a. a \<in> set (concat (all_cols g)) \<Longrightarrow> a < fresh s"
    "\<And>c. c \<in> set (all_cols g) \<Longrightarrow> dlseg (tp s) (bt s) None c None"
    "\<And>j. j < num_layers s \<Longrightarrow> dlseg (nx s) (pv s) None (layer j (all_cols g)) None"
    "\<And>a. a \<in> set (hcol g) \<Longrightarrow> ninf s a" "\<And>a. a \<in> set (tcol g) \<Longrightarrow> pinf s a"
    "\<And>c a. c \<in> set (cols g) \<Longrightarrow> a \<in> set c \<Longrightarrow>
        \<not> ninf s a \<and> \<not> pinf s a \<and> kf s a = kf s (hd c)"
    "sorted_wrt (<) (map (\<lambda>c. kf s (hd c)) (cols g))"
    "head s = Some (last (hcol g))" "tail s = Some (last (tcol g))"
    "num_keys s = length (cols g)"
  shows "skip_inv s g"
  unfolding skip_inv_def using assms by blast

lemma link_after_eq:
  assumes "t \<noteq> n" "nx s t = Some tn"
  shows "link_after n t s =
    Some (set_next t (Some n) (set_previous tn (Some n) (set_previous n (Some t) (set_next n (Some tn) s))))"
  using assms by (simp add: link_after_def Let_def)

lemma layer_disjoint:
  assumes "distinct (concat cs)" "a \<in> set (layer i cs)" "a \<in> set (layer j cs)"
  shows "i = j"
  using assms
proof (induction cs)
  case Nil then show ?case by simp
next
  case (Cons c cs)
  have sub: "\<And>i. set (layer i cs) \<subseteq> set (concat cs)" by (rule set_layer_subset)
  from Cons.prems(1) have d: "distinct c" "distinct (concat cs)" "set c \<inter> set (concat cs) = {}"
    by auto
  consider (hh) "i < length c" "a = c ! i" "j < length c" "a = c ! j"
    | (ht) "i < length c" "a = c ! i" "a \<in> set (layer j cs)"
    | (th) "a \<in> set (layer i cs)" "j < length c" "a = c ! j"
    | (tt) "a \<in> set (layer i cs)" "a \<in> set (layer j cs)"
    using Cons.prems(2,3) by (auto split: if_splits)
  then show ?case
  proof cases
    case hh then show ?thesis using d(1) by (simp add: nth_eq_iff_index_eq)
  next
    case ht then show ?thesis using d(3) sub[of j] by (metis disjoint_iff nth_mem subsetD)
  next
    case th then show ?thesis using d(3) sub[of i] by (metis disjoint_iff nth_mem subsetD)
  next
    case tt then show ?thesis using Cons.IH[OF d(2)] by simp
  qed
qed

lemma dlseg_snoc':
  assumes "dlseg fw bw p as None" "as \<noteq> []" "n \<notin> set as" "distinct as"
  shows "dlseg (fw(n := None, last as := Some n)) (bw(n := Some (last as))) p (as @ [n]) None"
proof -
  have "last as \<noteq> n" using assms(2,3) last_in_set by metis
  then have "fw(n := None, last as := Some n) = fw(last as := Some n, n := None)"
    by (simp add: fun_upd_twist)
  with dlseg_snoc[OF assms] show ?thesis by simp
qed

lemma splice_inv:
  fixes s s' :: "('k::linorder, 'v) SkipList"
  assumes inv: "skip_inv s g"
    and cols: "cols g = L @ M @ R"
    and M: "M = [] \<and> c = [] \<or> M = [c] \<and> c \<noteq> []"
    and j: "j = length c" "Suc j < num_layers s"
    and keyL: "\<And>l. l \<in> set L \<Longrightarrow> kf s (hd l) < k"
    and keyR: "\<And>r. r \<in> set R \<Longrightarrow> k < kf s (hd r)"
    and keyc: "c \<noteq> [] \<Longrightarrow> kf s (hd c) = k"
    and n: "n = fresh s"
    and temp: "temp = last (layer j (hcol g # L))"
    and tn: "tn = hd (layer j (R @ [tcol g]))"
    and nx': "nx s' = (nx s)(n := Some tn, temp := Some n)"
    and pv': "pv s' = (pv s)(n := Some temp, tn := Some n)"
    and tp': "tp s' = (if c = [] then (tp s)(n := None) else (tp s)(n := None, last c := Some n))"
    and bt': "bt s' = (bt s)(n := (if c = [] then None else Some (last c)))"
    and kf': "kf s' = (kf s)(n := k)"
    and ninf': "ninf s' = (ninf s)(n := False)"
    and pinf': "pinf s' = (pinf s)(n := False)"
    and misc: "fresh s' = Suc n" "head s' = head s" "tail s' = tail s"
      "num_layers s' = num_layers s" "num_keys s' = Suc (length L + length R)"
  shows "skip_inv s' (g\<lparr>cols := L @ (c @ [n]) # R\<rparr>)"
proof -
  let ?g' = "g\<lparr>cols := L @ (c @ [n]) # R\<rparr>"
  let ?hc = "hcol g" and ?tc = "tcol g"
  have ac: "all_cols g = ?hc # L @ M @ R @ [?tc]"
    by (simp add: all_cols_def cols)
  have ac': "all_cols ?g' = ?hc # L @ (c @ [n]) # R @ [?tc]"
    by (simp add: all_cols_def)
  have cM: "concat M = c" using M by auto
  have layM: "\<And>i. layer i M = (if i < length c then [c ! i] else [])" using M by auto
  have nfresh: "n \<notin> set (concat (all_cols g))"
    using inv_fresh[OF inv, of n] n by auto
  have dist: "distinct (concat (all_cols g))" using inv_distinct[OF inv] .
  have dist': "distinct (?hc @ concat L @ c @ concat R @ ?tc)"
    using dist by (simp add: ac cM)
  have nfresh': "n \<notin> set ?hc" "n \<notin> set (concat L)" "n \<notin> set c" "n \<notin> set (concat R)" "n \<notin> set ?tc"
    using nfresh by (simp_all add: ac cM)
  have hlen: "length ?hc = num_layers s" and tlen: "length ?tc = num_layers s"
    using inv_hlen[OF inv] inv_tlen[OF inv] by auto
  have oldcol: "\<And>c0. c0 \<in> set L \<union> set R \<Longrightarrow> c0 \<in> set (cols g)" by (auto simp: cols)
  have lay': "\<And>i. layer i (all_cols ?g') =
      (if i = j then layer j (?hc # L) @ n # layer j (R @ [?tc]) else layer i (all_cols g))"
    unfolding ac ac' by (auto simp: layM j nth_append)
  have layj: "layer j (all_cols g) = layer j (?hc # L) @ layer j (R @ [?tc])"
    unfolding ac by (simp add: layM j)
  have disj_c: "\<And>c0. c0 \<in> set (?hc # L @ R @ [?tc]) \<Longrightarrow> set c0 \<inter> set c = {}"
    using dist' by auto
  show ?thesis
  proof (rule invI)
    show "2 \<le> num_layers s'" using inv_nl[OF inv] misc by simp
    show "length (hcol ?g') = num_layers s'" using hlen misc by simp
    show "length (tcol ?g') = num_layers s'" using tlen misc by simp
    show "1 \<le> length c0 \<and> length c0 < num_layers s'" if "c0 \<in> set (cols ?g')" for c0
      using that inv_clen[OF inv oldcol, of c0] j misc by auto
    show "distinct (concat (all_cols ?g'))"
      using dist' nfresh' by (simp add: ac')
    show "a < fresh s'" if "a \<in> set (concat (all_cols ?g'))" for a
    proof -
      from that have "a = n \<or> a \<in> set (concat (all_cols g))"
        unfolding ac ac' by (auto simp: cM)
      then show ?thesis
      proof
        assume "a = n" with misc show ?thesis by simp
      next
        assume "a \<in> set (concat (all_cols g))"
        from inv_fresh[OF inv this] n misc show ?thesis by simp
      qed
    qed
    show "dlseg (tp s') (bt s') None c0 None" if c0: "c0 \<in> set (all_cols ?g')" for c0
    proof (cases "c0 = c @ [n]")
      case True
      show ?thesis
      proof (cases "c = []")
        case True
        with \<open>c0 = c @ [n]\<close> show ?thesis by (simp add: tp' bt')
      next
        case False
        with M have "c \<in> set (all_cols g)" by (auto simp: ac)
        from inv_vert[OF inv this] have "dlseg (tp s) (bt s) None c None" .
        moreover have "distinct c" using dist' by simp
        ultimately have "dlseg ((tp s)(n := None, last c := Some n)) ((bt s)(n := Some (last c)))
            None (c @ [n]) None"
          using False nfresh'(3) by (intro dlseg_snoc') auto
        with False True show ?thesis by (simp add: tp' bt')
      qed
    next
      case False
      with c0 have mem: "c0 \<in> set (?hc # L @ R @ [?tc])" by (auto simp: ac')
      then have "c0 \<in> set (all_cols g)" by (auto simp: ac)
      from inv_vert[OF inv this] have seg: "dlseg (tp s) (bt s) None c0 None" .
      have "n \<notin> set c0" using mem nfresh' by auto
      moreover have "c \<noteq> [] \<Longrightarrow> last c \<notin> set c0"
        using disj_c[OF mem] last_in_set[of c] by auto
      ultimately have "\<forall>a\<in>set c0. tp s' a = tp s a \<and> bt s' a = bt s a"
        by (auto simp: tp' bt')
      from dlseg_frame[OF this] seg show ?thesis by simp
    qed
    show "dlseg (nx s') (pv s') None (layer i (all_cols ?g')) None" if i: "i < num_layers s'" for i
    proof -
      have il: "i < num_layers s" and jl: "j < num_layers s" using i j misc by auto
      have hne: "layer j (?hc # L) \<noteq> []" using jl hlen by simp
      have tne: "layer j (R @ [?tc]) \<noteq> []" using jl tlen by simp
      obtain X where X: "layer j (?hc # L) = X @ [temp]"
        using hne temp by (metis append_butlast_last_id)
      obtain Y where Y: "layer j (R @ [?tc]) = tn # Y"
        using tne tn by (metis list.collapse)
      have old: "dlseg (nx s) (pv s) None (X @ temp # tn # Y) None"
        using inv_horiz[OF inv jl] unfolding layj X Y by simp
      have dl: "distinct (X @ temp # tn # Y)"
        using distinct_layer[OF dist, of j] unfolding layj X Y by simp
      have nl: "n \<notin> set (X @ temp # tn # Y)"
        using nfresh set_layer_subset[of j "all_cols g"] unfolding layj X Y by auto
      show ?thesis
      proof (cases "i = j")
        case True
        have "dlseg ((nx s)(n := Some tn, temp := Some n)) ((pv s)(n := Some temp, tn := Some n))
            None (X @ temp # n # tn # Y) None"
          using dlseg_insert_after[OF old nl dl] .
        moreover have "layer i (all_cols ?g') = X @ temp # n # tn # Y"
          using True by (simp only: lay' X Y if_True append.simps append_assoc refl simp_thms)
        ultimately show ?thesis by (simp only: nx' pv')
      next
        case False
        have "\<forall>a\<in>set (layer i (all_cols g)). nx s' a = nx s a \<and> pv s' a = pv s a"
        proof
          fix a assume a: "a \<in> set (layer i (all_cols g))"
          have "a \<noteq> n" using a nfresh set_layer_subset[of i "all_cols g"] by auto
          moreover have "a \<noteq> temp"
            using layer_disjoint[OF dist a, of j] False unfolding layj X Y by auto
          moreover have "a \<noteq> tn"
            using layer_disjoint[OF dist a, of j] False unfolding layj X Y by auto
          ultimately show "nx s' a = nx s a \<and> pv s' a = pv s a" by (simp add: nx' pv')
        qed
        from dlseg_frame[OF this] inv_horiz[OF inv il] False show ?thesis by (simp add: lay')
      qed
    qed
    show "ninf s' a" if "a \<in> set (hcol ?g')" for a
      using that inv_ninf[OF inv, of a] nfresh'(1) by (auto simp: ninf')
    show "pinf s' a" if "a \<in> set (tcol ?g')" for a
      using that inv_pinf[OF inv, of a] nfresh'(5) by (auto simp: pinf')
    have hdc: "kf s' (hd (c @ [n])) = k"
      using keyc nfresh'(3) by (cases c) (auto simp: kf')
    have oldkey: "kf s' (hd c0) = kf s (hd c0)" if "c0 \<in> set L \<union> set R" for c0
    proof -
      have "c0 \<noteq> []" using cols_ne[OF inv oldcol[OF that]] .
      then have "hd c0 \<in> set c0" by simp
      then have "hd c0 \<noteq> n" using that nfresh'(2,4) by auto
      then show ?thesis by (simp add: kf')
    qed
    show "\<not> ninf s' a \<and> \<not> pinf s' a \<and> kf s' a = kf s' (hd c0)"
      if "c0 \<in> set (cols ?g')" "a \<in> set c0" for c0 a
    proof (cases "c0 = c @ [n]")
      case True
      show ?thesis
      proof (cases "a = n")
        case True
        with \<open>c0 = c @ [n]\<close> hdc show ?thesis by (simp add: ninf' pinf' kf')
      next
        case False
        with that True have ac: "a \<in> set c" by simp
        then have "c \<noteq> []" by auto
        with M have "c \<in> set (cols g)" by (auto simp: cols)
        from inv_col[OF inv this ac] keyc[OF \<open>c \<noteq> []\<close>] False True hdc show ?thesis
          by (simp add: ninf' pinf' kf')
      qed
    next
      case False
      with that have mem: "c0 \<in> set L \<union> set R" by auto
      have "a \<noteq> n" using mem that(2) nfresh'(2,4) by auto
      with inv_col[OF inv oldcol[OF mem] that(2)] oldkey[OF mem] show ?thesis
        by (simp add: ninf' pinf' kf')
    qed
    show "sorted_wrt (<) (map (\<lambda>c. kf s' (hd c)) (cols ?g'))"
    proof -
      have mL: "map (\<lambda>c. kf s' (hd c)) L = map (\<lambda>c. kf s (hd c)) L"
        and mR: "map (\<lambda>c. kf s' (hd c)) R = map (\<lambda>c. kf s (hd c)) R"
        using oldkey by auto
      have "sorted_wrt (<) (map (\<lambda>c. kf s (hd c)) L)" "sorted_wrt (<) (map (\<lambda>c. kf s (hd c)) R)"
        using inv_sorted[OF inv] unfolding cols by (auto simp: sorted_wrt_append)
      then show ?thesis
        using keyL keyR hdc
        by (auto simp: sorted_wrt_append mL mR simp del: hd_append2 dest: less_trans)
    qed
    show "head s' = Some (last (hcol ?g'))" using inv_head[OF inv] misc by simp
    show "tail s' = Some (last (tcol ?g'))" using inv_tail[OF inv] misc by simp
    show "num_keys s' = length (cols ?g')" using misc by simp
  qed
qed

lemma nx_temp:
  assumes inv: "skip_inv s g" and cols: "cols g = L @ M @ R" and M: "layer j M = []"
    and j: "j < num_layers s"
  shows "nx s (last (layer j (hcol g # L))) = Some (hd (layer j (R @ [tcol g])))"
proof -
  have hne: "layer j (hcol g # L) \<noteq> []" using j inv_hlen[OF inv] by simp
  have tne: "layer j (R @ [tcol g]) \<noteq> []" using j inv_tlen[OF inv] by simp
  obtain X where X: "layer j (hcol g # L) = X @ [last (layer j (hcol g # L))]"
    using hne by (metis append_butlast_last_id)
  obtain Y where Y: "layer j (R @ [tcol g]) = hd (layer j (R @ [tcol g])) # Y"
    using tne by (metis list.collapse)
  have "layer j (all_cols g) = layer j (hcol g # L) @ layer j (R @ [tcol g])"
    by (simp add: all_cols_def cols M)
  then have "layer j (all_cols g) = X @ last (layer j (hcol g # L)) # hd (layer j (R @ [tcol g])) # Y"
    using X Y by (metis append.assoc append_Cons append_Nil)
  with inv_horiz[OF inv j] show ?thesis by (simp add: dlseg_append)
qed

lemma layer_mem_fresh:
  assumes "skip_inv s g" "a \<in> set (layer j (all_cols g))"
  shows "a < fresh s"
  using inv_fresh[OF assms(1), of a] set_layer_subset[of j "all_cols g"] assms(2) by auto

lemma lower_lt:
  assumes "skip_inv s g" "k \<notin> (\<lambda>c. kf s (hd c)) ` set (cols g)" "l \<in> set (lower s g k)"
  shows "kf s (hd l) < k"
proof -
  have "l \<in> set (cols g)" using assms(3) lower_subset[of s g k] by auto
  with assms(2) have "kf s (hd l) \<noteq> k" by (auto simp: image_iff)
  with lower_le[OF assms(3)] show ?thesis by simp
qed

lemma pred_node_layer0:
  assumes "skip_inv s g"
  shows "pred_node s g k = last (layer 0 (hcol g # lower s g k))"
proof -
  have "\<forall>c\<in>set (hcol g # lower s g k). c \<noteq> []"
    using hcol_ne[OF assms] cols_ne[OF assms] lower_subset[of s g k] by auto
  from layer0[OF this] show ?thesis by (simp add: pred_node_def last_map)
qed

text \<open>The new node of \<^verbatim>\<open>insert\<close> in the bottom layer.\<close>

lemma insert_bottom:
  fixes s :: "('k::linorder, 'v) SkipList"
  assumes inv: "skip_inv s g" and absent: "k \<notin> (\<lambda>c. kf s (hd c)) ` set (cols g)"
  defines "n \<equiv> fresh s" and "temp \<equiv> pred_node s g k"
  shows "\<exists>s1. link_after n temp (alloc (SkipNode_kv k v) s) = Some s1 \<and>
    skip_inv (s1\<lparr>num_keys := num_keys s1 + 1\<rparr>) (g\<lparr>cols := lower s g k @ [n] # upper s g k\<rparr>) \<and>
    kf s1 = (kf s)(n := k) \<and> vf s1 = (vf s)(n := v) \<and> num_layers s1 = num_layers s \<and>
    num_keys s1 = num_keys s \<and> fresh s1 = Suc n"
proof -
  let ?L = "lower s g k" and ?R = "upper s g k"
  let ?tn = "hd (layer 0 (?R @ [tcol g]))"
  let ?sa = "alloc (SkipNode_kv k v) s"
  have cols: "cols g = ?L @ [] @ ?R" using cols_split[of g s k] by simp
  have nl: "0 < num_layers s" "Suc 0 < num_layers s" using inv_nl[OF inv] by auto
  have temp: "temp = last (layer 0 (hcol g # ?L))"
    unfolding temp_def by (rule pred_node_layer0[OF inv])
  have nxt: "nx s temp = Some ?tn"
    unfolding temp using nx_temp[OF inv cols _ nl(1)] by simp
  have "layer 0 (hcol g # ?L) \<noteq> []" using nl inv_hlen[OF inv] by simp
  then have "temp \<in> set (layer 0 (hcol g # ?L))" unfolding temp by (rule last_in_set)
  then have "temp \<in> set (layer 0 (all_cols g))"
    unfolding all_cols_def cols_split[of g s k] by auto
  from layer_mem_fresh[OF inv this] have tn: "temp \<noteq> n" by (simp add: n_def)
  let ?s1 = "set_next temp (Some n) (set_previous ?tn (Some n)
      (set_previous n (Some temp) (set_next n (Some ?tn) ?sa)))"
  have la: "link_after n temp ?sa = Some ?s1"
    using tn nxt by (intro link_after_eq) (simp_all add: n_def)
  have "skip_inv (?s1\<lparr>num_keys := num_keys ?s1 + 1\<rparr>) (g\<lparr>cols := ?L @ ([] @ [n]) # ?R\<rparr>)"
  proof (rule splice_inv[OF inv cols, where j = 0 and k = k and temp = temp and tn = ?tn])
    show "[] = [] \<and> [] = [] \<or> [] = [[]] \<and> [] \<noteq> []" by simp
    show "kf s (hd l) < k" if "l \<in> set ?L" for l using lower_lt[OF inv absent that] .
    show "k < kf s (hd r)" if "r \<in> set ?R" for r using upper_gt[OF inv that] .
    show "num_keys (?s1\<lparr>num_keys := num_keys ?s1 + 1\<rparr>) = Suc (length ?L + length ?R)"
      using inv_nk[OF inv] cols by simp
  qed (use nl temp in \<open>simp_all add: n_def\<close>)
  with la show ?thesis by (intro exI[of _ ?s1]) (simp add: n_def)
qed

text \<open>A new top layer.\<close>

lemma add_layer_eq:
  assumes "head s = Some h" "tail s = Some t"
  shows "add_layer T s =
    Some ((set_top t (Some (Suc (fresh s))) (set_top h (Some (fresh s))
      (set_bottom (Suc (fresh s)) (Some t) (set_bottom (fresh s) (Some h)
      (set_previous (Suc (fresh s)) (Some (fresh s)) (set_next (fresh s) (Some (Suc (fresh s)))
      (set_p_inf (Suc (fresh s)) True (set_n_inf (fresh s) True
      (alloc (SkipNode_default T) (alloc (SkipNode_default T)
        (s\<lparr>num_layers := num_layers s + 1\<rparr>)))))))))))
      \<lparr>head := Some (fresh s), tail := Some (Suc (fresh s))\<rparr>)"
  using assms by (simp add: add_layer_def Let_def cong: let_weak_cong)

lemma add_layer_inv:
  fixes s :: "('k::linorder, 'v) SkipList"
  assumes inv: "skip_inv s g"
  shows "\<exists>s'. add_layer T s = Some s' \<and>
    skip_inv s' (g\<lparr>hcol := hcol g @ [fresh s], tcol := tcol g @ [Suc (fresh s)]\<rparr>) \<and>
    num_layers s' = Suc (num_layers s) \<and> num_keys s' = num_keys s \<and>
    (\<forall>a<fresh s. kf s' a = kf s a \<and> vf s' a = vf s a)"
proof -
  let ?a = "fresh s" and ?b = "Suc (fresh s)"
  let ?h = "last (hcol g)" and ?t = "last (tcol g)"
  let ?g' = "g\<lparr>hcol := hcol g @ [?a], tcol := tcol g @ [?b]\<rparr>"
  define s' where "s' = (set_top ?t (Some ?b) (set_top ?h (Some ?a)
      (set_bottom ?b (Some ?t) (set_bottom ?a (Some ?h)
      (set_previous ?b (Some ?a) (set_next ?a (Some ?b)
      (set_p_inf ?b True (set_n_inf ?a True
      (alloc (SkipNode_default T) (alloc (SkipNode_default T)
        (s\<lparr>num_layers := num_layers s + 1\<rparr>)))))))))))
      \<lparr>head := Some ?a, tail := Some ?b\<rparr>"
  have eq: "add_layer T s = Some s'"
    unfolding s'_def using add_layer_eq[OF inv_head[OF inv] inv_tail[OF inv]] .
  have ac: "all_cols g = hcol g # cols g @ [tcol g]" by (simp add: all_cols_def)
  have ac': "all_cols ?g' = (hcol g @ [?a]) # cols g @ [tcol g @ [?b]]" by (simp add: all_cols_def)
  have fr: "\<And>x. x \<in> set (concat (all_cols g)) \<Longrightarrow> x \<noteq> ?a \<and> x \<noteq> ?b"
    using inv_fresh[OF inv] by fastforce
  have dist: "distinct (hcol g @ concat (cols g) @ tcol g)"
    using inv_distinct[OF inv] by (simp add: ac)
  have hne: "hcol g \<noteq> []" and tne: "tcol g \<noteq> []" using hcol_ne[OF inv] tcol_ne[OF inv] by auto
  have hlen: "length (hcol g) = num_layers s" and tlen: "length (tcol g) = num_layers s"
    using inv_hlen[OF inv] inv_tlen[OF inv] by auto
  have hmem: "?h \<in> set (hcol g)" and tmem: "?t \<in> set (tcol g)" using hne tne by auto
  have ht: "?h \<noteq> ?t" using dist hmem tmem by auto
  have tp': "tp s' = (tp s)(?a := None, ?b := None, ?h := Some ?a, ?t := Some ?b)"
    and bt': "bt s' = (bt s)(?a := Some ?h, ?b := Some ?t)"
    and nx': "nx s' = (nx s)(?b := None, ?a := Some ?b)"
    and pv': "pv s' = (pv s)(?a := None, ?b := Some ?a)"
    and ninf': "ninf s' = (ninf s)(?b := False, ?a := True)"
    and pinf': "pinf s' = (pinf s)(?a := False, ?b := True)"
    and kf': "kf s' = (kf s)(?a := Key0 T, ?b := Key0 T)"
    and vf': "vf s' = (vf s)(?a := Value0 T, ?b := Value0 T)"
    unfolding s'_def by (auto simp: SkipNode_default_def fun_eq_iff)
  have misc: "num_layers s' = Suc (num_layers s)" "num_keys s' = num_keys s"
    "fresh s' = Suc (Suc (fresh s))" "head s' = Some ?a" "tail s' = Some ?b"
    unfolding s'_def by simp_all
  have frh: "x \<noteq> ?a \<and> x \<noteq> ?b \<and> x \<noteq> ?t" if "x \<in> set (hcol g)" for x
    using fr[of x] that dist tmem by (auto simp: ac)
  have frt: "x \<noteq> ?a \<and> x \<noteq> ?b \<and> x \<noteq> ?h" if "x \<in> set (tcol g)" for x
    using fr[of x] that dist hmem by (auto simp: ac)
  have frc: "x \<noteq> ?a \<and> x \<noteq> ?b \<and> x \<noteq> ?h \<and> x \<noteq> ?t" if "c \<in> set (cols g)" "x \<in> set c" for c x
    using fr[of x] that dist hmem tmem by (auto simp: ac)
  have "skip_inv s' ?g'"
  proof (rule invI)
    show "2 \<le> num_layers s'" using inv_nl[OF inv] misc by simp
    show "length (hcol ?g') = num_layers s'" using hlen misc by simp
    show "length (tcol ?g') = num_layers s'" using tlen misc by simp
    show "1 \<le> length c \<and> length c < num_layers s'" if "c \<in> set (cols ?g')" for c
      using that inv_clen[OF inv, of c] misc by auto
    show "distinct (concat (all_cols ?g'))"
      using dist fr by (auto simp: ac ac')
    show "x < fresh s'" if "x \<in> set (concat (all_cols ?g'))" for x
    proof -
      from that consider "x = ?a" | "x = ?b" | "x \<in> set (concat (all_cols g))"
        unfolding ac ac' by auto
      then show ?thesis
      proof cases
        case 1 then show ?thesis using misc by simp
      next
        case 2 then show ?thesis using misc by simp
      next
        case 3
        from inv_fresh[OF inv this] show ?thesis using misc by simp
      qed
    qed
    show "dlseg (tp s') (bt s') None c None" if cmem: "c \<in> set (all_cols ?g')" for c
    proof -
      from cmem have "c = hcol g @ [?a] \<or> c = tcol g @ [?b] \<or> c \<in> set (cols g)"
        unfolding ac' by auto
      then consider (h) "c = hcol g @ [?a]" | (t) "c = tcol g @ [?b]" | (c) "c \<in> set (cols g)"
        by blast
      then show ?thesis
      proof cases
        case h
        have "hcol g \<in> set (all_cols g)" by (simp add: ac)
        from inv_vert[OF inv this] have "dlseg (tp s) (bt s) None (hcol g) None" .
        then have A: "dlseg ((tp s)(?a := None, ?h := Some ?a)) ((bt s)(?a := Some ?h)) None
            (hcol g @ [?a]) None"
          using hne dist frh by (intro dlseg_snoc') auto
        have E: "\<forall>x\<in>set (hcol g @ [?a]). tp s' x = ((tp s)(?a := None, ?h := Some ?a)) x
            \<and> bt s' x = ((bt s)(?a := Some ?h)) x"
          using frh frh[OF hmem] frt[OF tmem] by (auto simp: tp' bt')
        show ?thesis unfolding h by (rule iffD2[OF dlseg_frame[OF E] A])
      next
        case t
        have "tcol g \<in> set (all_cols g)" by (simp add: ac)
        from inv_vert[OF inv this] have "dlseg (tp s) (bt s) None (tcol g) None" .
        then have A: "dlseg ((tp s)(?b := None, ?t := Some ?b)) ((bt s)(?b := Some ?t)) None
            (tcol g @ [?b]) None"
          using tne dist frt by (intro dlseg_snoc') auto
        have E: "\<forall>x\<in>set (tcol g @ [?b]). tp s' x = ((tp s)(?b := None, ?t := Some ?b)) x
            \<and> bt s' x = ((bt s)(?b := Some ?t)) x"
          using frt frt[OF tmem] frh[OF hmem] by (auto simp: tp' bt')
        show ?thesis unfolding t by (rule iffD2[OF dlseg_frame[OF E] A])
      next
        case c
        then have "c \<in> set (all_cols g)" by (simp add: ac)
        from inv_vert[OF inv this] have seg: "dlseg (tp s) (bt s) None c None" .
        have "\<forall>x\<in>set c. tp s' x = tp s x \<and> bt s' x = bt s x"
          using frc[OF c] by (auto simp: tp' bt')
        from iffD2[OF dlseg_frame[OF this] seg] show ?thesis .
      qed
    qed
    show "dlseg (nx s') (pv s') None (layer i (all_cols ?g')) None" if i: "i < num_layers s'" for i
    proof (cases "i < num_layers s")
      case True
      have L: "layer i (all_cols ?g') = layer i (all_cols g)"
        using True hlen tlen by (simp add: ac ac' nth_append)
      have E: "\<forall>x\<in>set (layer i (all_cols g)). nx s' x = nx s x \<and> pv s' x = pv s x"
      proof
        fix x assume "x \<in> set (layer i (all_cols g))"
        then have "x \<in> set (concat (all_cols g))" using set_layer_subset[of i "all_cols g"] by blast
        from fr[OF this] show "nx s' x = nx s x \<and> pv s' x = pv s x" by (simp add: nx' pv')
      qed
      show ?thesis unfolding L by (rule iffD2[OF dlseg_frame[OF E] inv_horiz[OF inv True]])
    next
      case False
      with i misc have "i = num_layers s" by simp
      moreover have "layer (num_layers s) (cols g) = []"
        using inv_clen[OF inv] by (fastforce simp: layer_def filter_empty_conv)
      ultimately have "layer i (all_cols ?g') = [?a, ?b]"
        using hlen tlen by (simp add: ac' nth_append)
      then show ?thesis by (simp add: nx' pv')
    qed
    show "ninf s' x" if "x \<in> set (hcol ?g')" for x
      using that inv_ninf[OF inv, of x] fr[of x] by (auto simp: ninf' ac)
    show "pinf s' x" if "x \<in> set (tcol ?g')" for x
      using that inv_pinf[OF inv, of x] fr[of x] by (auto simp: pinf' ac)
    have old: "x \<noteq> ?a \<and> x \<noteq> ?b" if "c \<in> set (cols g)" "x \<in> set c" for c x
      using fr[of x] that by (auto simp: ac)
    have oldhd: "kf s' (hd c) = kf s (hd c)" if "c \<in> set (cols g)" for c
      using old[OF that, of "hd c"] cols_ne[OF inv that] by (simp add: kf')
    show "\<not> ninf s' x \<and> \<not> pinf s' x \<and> kf s' x = kf s' (hd c)"
      if "c \<in> set (cols ?g')" "x \<in> set c" for c x
      using that inv_col[OF inv, of c x] old[of c x] oldhd[of c] by (simp add: ninf' pinf' kf')
    show "sorted_wrt (<) (map (\<lambda>c. kf s' (hd c)) (cols ?g'))"
    proof -
      have "map (\<lambda>c. kf s' (hd c)) (cols g) = map (\<lambda>c. kf s (hd c)) (cols g)"
        by (rule map_cong) (simp_all add: oldhd)
      with inv_sorted[OF inv] show ?thesis by (simp del: map_eq_conv)
    qed
    show "head s' = Some (last (hcol ?g'))" using misc by simp
    show "tail s' = Some (last (tcol ?g'))" using misc by simp
    show "num_keys s' = length (cols ?g')" using inv_nk[OF inv] misc by simp
  qed
  moreover have "\<forall>a<fresh s. kf s' a = kf s a \<and> vf s' a = vf s a"
    by (simp add: kf' vf')
  ultimately show ?thesis using eq misc by blast
qed

section \<open>One promotion\<close>

lemma walk_left_seg:
  assumes "dlseg (nx s) (pv s) None (x0 # xs) q"
  shows "walk_left (store s) (last (x0 # xs)) = Some (last (x0 # filter (\<lambda>a. tp s a \<noteq> None) xs))"
  using assms
proof (induction xs arbitrary: q rule: rev_induct)
  case Nil
  then show ?case by (subst walk_left.simps) simp
next
  case (snoc y ys)
  from snoc.prems have seg: "dlseg (nx s) (pv s) None ((x0 # ys) @ [y]) q" by simp
  then have pvy: "pv s y = Some (last (x0 # ys))" and
    ys: "dlseg (nx s) (pv s) None (x0 # ys) (Some y)"
    unfolding dlseg_append by simp_all
  from snoc.IH[OF ys] pvy show ?case
    by (subst walk_left.simps) simp
qed

lemma tp_col:
  assumes "dlseg (tp s) (bt s) None c None" "j < length c"
  shows "tp s (c ! j) = (if Suc j < length c then Some (c ! Suc j) else None)"
proof (cases "Suc j < length c")
  case True
  with dlseg_nth(2)[OF assms(1) True] show ?thesis by simp
next
  case False
  with assms(2) have "j = length c - 1" "c \<noteq> []" by auto
  then have "c ! j = last c" by (simp add: last_conv_nth)
  with dlseg_ends(2)[OF assms(1) \<open>c \<noteq> []\<close>] False show ?thesis by simp
qed

lemma tp_layer:
  assumes "\<And>c. c \<in> set cs \<Longrightarrow> dlseg (tp s) (bt s) None c None"
  shows "map (\<lambda>a. the (tp s a)) (filter (\<lambda>a. tp s a \<noteq> None) (layer j cs)) = layer (Suc j) cs"
  using assms
proof (induction cs)
  case Nil then show ?case by simp
next
  case (Cons c cs)
  then have IH: "map (\<lambda>a. the (tp s a)) (filter (\<lambda>a. tp s a \<noteq> None) (layer j cs)) = layer (Suc j) cs"
    by simp
  have seg: "dlseg (tp s) (bt s) None c None" using Cons.prems by simp
  show ?case
  proof (cases "j < length c")
    case True
    from tp_col[OF seg True] IH True show ?thesis by auto
  next
    case False
    with IH show ?thesis by simp
  qed
qed

lemma promote_link:
  fixes s :: "('k::linorder, 'v) SkipList"
  assumes inv: "skip_inv s g" and cols: "cols g = L @ c # R" and len: "length c = Suc hgt"
    and room: "Suc (Suc hgt) < num_layers s"
    and keyL: "\<And>l. l \<in> set L \<Longrightarrow> kf s (hd l) < k"
    and keyR: "\<And>r. r \<in> set R \<Longrightarrow> k < kf s (hd r)"
    and keyc: "kf s (hd c) = k"
    and temp: "temp = last (layer hgt (hcol g # L))"
  shows "\<exists>w temp' s2. walk_left (store s) temp = Some w \<and> tp s w = Some temp' \<and>
    temp' = last (layer (Suc hgt) (hcol g # L)) \<and>
    link_after (fresh s) temp' (alloc (SkipNode_kv k v) s) = Some s2 \<and>
    skip_inv (set_top (last c) (Some (fresh s)) (set_bottom (fresh s) (Some (last c)) s2))
      (g\<lparr>cols := L @ (c @ [fresh s]) # R\<rparr>) \<and>
    kf s2 = (kf s)(fresh s := k) \<and> vf s2 = (vf s)(fresh s := v) \<and>
    num_layers s2 = num_layers s \<and> num_keys s2 = num_keys s \<and> fresh s2 = Suc (fresh s)"
proof -
  let ?n = "fresh s"
  let ?hl = "layer hgt (hcol g # L)"
  let ?temp' = "last (layer (Suc hgt) (hcol g # L))"
  let ?tn = "hd (layer (Suc hgt) (R @ [tcol g]))"
  have hlen: "length (hcol g) = num_layers s" using inv_hlen[OF inv] .
  have cols': "cols g = L @ [c] @ R" using cols by simp
  have cne: "c \<noteq> []" using len by auto
  \<comment> \<open>the walk to the left\<close>
  obtain xs where xs: "?hl = hcol g ! hgt # xs" "xs = layer hgt L"
    using room hlen by simp
  define Z where "Z = layer hgt (c # R @ [tcol g])"
  have "all_cols g = (hcol g # L) @ (c # R @ [tcol g])" by (simp add: all_cols_def cols)
  then have "layer hgt (all_cols g) = (hcol g ! hgt # xs) @ Z"
    by (simp only: layer_append Z_def xs(1))
  moreover have "dlseg (nx s) (pv s) None (layer hgt (all_cols g)) None"
    using inv_horiz[OF inv, of hgt] room by simp
  ultimately have "dlseg (nx s) (pv s) None (hcol g ! hgt # xs) (first_or Z None)"
    by (simp only: dlseg_append)
  from walk_left_seg[OF this]
  have wl: "walk_left (store s) temp = Some (last (hcol g ! hgt # filter (\<lambda>a. tp s a \<noteq> None) xs))"
    unfolding temp xs(1) .
  let ?w = "last (hcol g ! hgt # filter (\<lambda>a. tp s a \<noteq> None) xs)"
  have vert: "\<And>c. c \<in> set (hcol g # L) \<Longrightarrow> dlseg (tp s) (bt s) None c None"
    using inv_vert[OF inv] by (auto simp: all_cols_def cols)
  have tph: "tp s (hcol g ! hgt) = Some (hcol g ! Suc hgt)"
    using tp_col[OF vert[of "hcol g"], of hgt] room hlen by simp
  then have fil: "filter (\<lambda>a. tp s a \<noteq> None) ?hl = hcol g ! hgt # filter (\<lambda>a. tp s a \<noteq> None) xs"
    unfolding xs(1) by simp
  have mp: "map (\<lambda>a. the (tp s a)) (filter (\<lambda>a. tp s a \<noteq> None) ?hl) = layer (Suc hgt) (hcol g # L)"
    using tp_layer[of "hcol g # L" s hgt] vert by blast
  have wmem: "?w \<in> set (filter (\<lambda>a. tp s a \<noteq> None) ?hl)"
    unfolding fil by (rule last_in_set) simp
  then obtain t' where t': "tp s ?w = Some t'" by auto
  have "the (tp s ?w) = last (map (\<lambda>a. the (tp s a)) (filter (\<lambda>a. tp s a \<noteq> None) ?hl))"
    unfolding fil by (simp add: last_map)
  with t' mp have t'eq: "t' = ?temp'" by simp
  \<comment> \<open>the link in the layer above\<close>
  have room': "Suc hgt < num_layers s" using room by simp
  have nxt: "nx s ?temp' = Some ?tn"
    using nx_temp[OF inv cols' _ room'] len by simp
  have "layer (Suc hgt) (hcol g # L) \<noteq> []" using room' hlen by simp
  then have "?temp' \<in> set (layer (Suc hgt) (hcol g # L))" by (rule last_in_set)
  then have "?temp' \<in> set (layer (Suc hgt) (all_cols g))"
    unfolding all_cols_def cols by auto
  from layer_mem_fresh[OF inv this] have tn: "?temp' \<noteq> ?n" by simp
  let ?sa = "alloc (SkipNode_kv k v) s"
  define s2 where "s2 = set_next ?temp' (Some ?n) (set_previous ?tn (Some ?n)
      (set_previous ?n (Some ?temp') (set_next ?n (Some ?tn) ?sa)))"
  have la: "link_after ?n ?temp' ?sa = Some s2"
    unfolding s2_def using tn nxt by (intro link_after_eq) simp_all
  define s3 where "s3 = set_top (last c) (Some ?n) (set_bottom ?n (Some (last c)) s2)"
  have "last c \<in> set (concat (all_cols g))" using cne by (auto simp: all_cols_def cols)
  from inv_fresh[OF inv this] have lc: "last c \<noteq> ?n" by simp
  have "skip_inv s3 (g\<lparr>cols := L @ (c @ [?n]) # R\<rparr>)"
  proof (rule splice_inv[OF inv cols', where c = c and j = "Suc hgt" and k = k
        and temp = ?temp' and tn = ?tn and n = ?n])
    show "[c] = [] \<and> c = [] \<or> [c] = [c] \<and> c \<noteq> []" using cne by simp
    show "tp s3 = (if c = [] then (tp s)(?n := None) else (tp s)(?n := None, last c := Some ?n))"
      using cne unfolding s3_def s2_def by simp
    show "bt s3 = (bt s)(?n := if c = [] then None else Some (last c))"
      using cne unfolding s3_def s2_def by simp
    show "num_keys s3 = Suc (length L + length R)"
      using inv_nk[OF inv] cols unfolding s3_def s2_def by simp
  qed (use len room keyL keyR keyc in \<open>simp_all add: s3_def s2_def\<close>)
  moreover have "kf s2 = (kf s)(?n := k)" "vf s2 = (vf s)(?n := v)" "num_layers s2 = num_layers s"
    "num_keys s2 = num_keys s" "fresh s2 = Suc ?n"
    unfolding s2_def by simp_all
  ultimately show ?thesis
    using wl t' t'eq la unfolding s3_def by blast
qed

section \<open>The promotion loop and \<^verbatim>\<open>insert\<close>\<close>

declare flips.simps [simp del]

lemma flips_ge: "hgt \<le> flips T k m hgt"
proof (induction T k m hgt rule: flips.induct)
  case (1 T k m hgt)
  then show ?case by (subst flips.simps) auto
qed

lemma flips_lt: "hgt < m \<Longrightarrow> flips T k m hgt < m"
proof (induction T k m hgt rule: flips.induct)
  case (1 T k m hgt)
  then show ?case by (subst flips.simps) auto
qed

lemma hd_fresh:
  assumes "skip_inv s g" "c \<in> set (cols g)"
  shows "hd c < fresh s"
proof -
  have "hd c \<in> set c" using cols_ne[OF assms] by simp
  then have "hd c \<in> set (concat (all_cols g))" using assms(2) by (auto simp: all_cols_def)
  from inv_fresh[OF assms(1) this] show ?thesis .
qed

lemma promote_inv:
  fixes s :: "('k::linorder, 'v) SkipList"
  assumes "skip_inv s g" "cols g = L @ c # R" "length c = Suc hgt"
    and "\<And>l. l \<in> set L \<Longrightarrow> kf s (hd l) < k"
    and "\<And>r. r \<in> set R \<Longrightarrow> k < kf s (hd r)"
    and "kf s (hd c) = k"
    and "temp = last (layer hgt (hcol g # L))" and "new_node = last c"
  shows "\<exists>s' g' c' t' n'. promote T k v m s temp new_node hgt = Some (s', t', n', flips T k m hgt) \<and>
    skip_inv s' g' \<and> cols g' = L @ c' # R \<and> length c' = Suc (flips T k m hgt) \<and> hd c' = hd c \<and>
    (\<forall>a<fresh s. kf s' a = kf s a \<and> vf s' a = vf s a) \<and>
    num_layers s' = max (num_layers s) (flips T k m hgt + 2) \<and> num_keys s' = num_keys s"
  using assms
proof (induction T k m hgt arbitrary: s g c temp new_node rule: flips.induct)
  case (1 T k m hgt)
  note inv = \<open>skip_inv s g\<close> and cols = \<open>cols g = L @ c # R\<close> and len = \<open>length c = Suc hgt\<close>
  have cmem: "c \<in> set (cols g)" using cols by simp
  have nl: "Suc hgt < num_layers s" using inv_clen[OF inv cmem] len by simp
  show ?case
  proof (cases "flipCoin T k hgt \<and> hgt + 1 < m")
    case False
    then have f: "flips T k m hgt = hgt" by (subst flips.simps) auto
    have "promote T k v m s temp new_node hgt = Some (s, temp, new_node, hgt)"
      using False by (subst promote.simps) auto
    moreover have "num_layers s = max (num_layers s) (hgt + 2)" using nl by simp
    ultimately show ?thesis
      using inv cols len unfolding f by blast
  next
    case True
    then have f: "flips T k m hgt = flips T k m (hgt + 1)" by (subst flips.simps) simp
    \<comment> \<open>room for the new node: a new top layer if needed\<close>
    have "\<exists>s1 g1. (if hgt + 1 + 1 \<ge> num_layers s then add_layer T s else Some s) = Some s1 \<and>
      skip_inv s1 g1 \<and> cols g1 = cols g \<and> layer hgt (hcol g1 # L) = layer hgt (hcol g # L) \<and>
      Suc (Suc hgt) < num_layers s1 \<and> num_layers s1 = max (num_layers s) (hgt + 3) \<and>
      num_keys s1 = num_keys s \<and> fresh s \<le> fresh s1 \<and>
      (\<forall>a<fresh s. kf s1 a = kf s a \<and> vf s1 a = vf s a)"
    proof (cases "hgt + 1 + 1 \<ge> num_layers s")
      case True
      from add_layer_inv[OF inv, of T] obtain s1 where s1: "add_layer T s = Some s1"
        "skip_inv s1 (g\<lparr>hcol := hcol g @ [fresh s], tcol := tcol g @ [Suc (fresh s)]\<rparr>)"
        "num_layers s1 = Suc (num_layers s)" "num_keys s1 = num_keys s"
        "\<forall>a<fresh s. kf s1 a = kf s a \<and> vf s1 a = vf s a"
        by blast
      let ?g1 = "g\<lparr>hcol := hcol g @ [fresh s], tcol := tcol g @ [Suc (fresh s)]\<rparr>"
      have "layer hgt (hcol ?g1 # L) = layer hgt (hcol g # L)"
        using nl inv_hlen[OF inv] by (simp add: nth_append)
      moreover have "fresh s \<le> fresh s1"
      proof -
        have "hcol ?g1 \<in> set (all_cols ?g1)" by (simp add: all_cols_def)
        then have "fresh s \<in> set (concat (all_cols ?g1))" by (auto simp: all_cols_def)
        from inv_fresh[OF s1(2) this] show ?thesis by simp
      qed
      ultimately show ?thesis using True s1 nl by (intro exI[of _ s1] exI[of _ ?g1]) auto
    next
      case False
      then show ?thesis using inv nl by (intro exI[of _ s] exI[of _ g]) auto
    qed
    then obtain s1 g1 where
      s1: "(if hgt + 1 + 1 \<ge> num_layers s then add_layer T s else Some s) = Some s1"
      and inv1: "skip_inv s1 g1" and cols1: "cols g1 = L @ c # R"
      and lay1: "layer hgt (hcol g1 # L) = layer hgt (hcol g # L)"
      and room: "Suc (Suc hgt) < num_layers s1"
      and nl1: "num_layers s1 = max (num_layers s) (hgt + 3)"
      and nk1: "num_keys s1 = num_keys s" and fr1: "fresh s \<le> fresh s1"
      and kv1: "\<forall>a<fresh s. kf s1 a = kf s a \<and> vf s1 a = vf s a"
      using cols by auto
    have old: "kf s1 (hd c0) = kf s (hd c0)" if "c0 \<in> set (cols g)" for c0
      using hd_fresh[OF inv that] kv1 by simp
    have keyL1: "\<And>l. l \<in> set L \<Longrightarrow> kf s1 (hd l) < k"
      and keyR1: "\<And>r. r \<in> set R \<Longrightarrow> k < kf s1 (hd r)" and keyc1: "kf s1 (hd c) = k"
      using "1.prems"(4,5,6) old cols by auto
    have temp1: "temp = last (layer hgt (hcol g1 # L))" using "1.prems"(7) lay1 by simp
    let ?n = "fresh s1"
    from promote_link[OF inv1 cols1 len room keyL1 keyR1 keyc1 temp1, of v]
    obtain w temp' s2 where wl: "walk_left (store s1) temp = Some w" and tw: "tp s1 w = Some temp'"
      and temp': "temp' = last (layer (Suc hgt) (hcol g1 # L))"
      and la: "link_after ?n temp' (alloc (SkipNode_kv k v) s1) = Some s2"
      and inv3: "skip_inv (set_top (last c) (Some ?n) (set_bottom ?n (Some (last c)) s2))
          (g1\<lparr>cols := L @ (c @ [?n]) # R\<rparr>)"
      and s2: "kf s2 = (kf s1)(?n := k)" "vf s2 = (vf s1)(?n := v)" "num_layers s2 = num_layers s1"
        "num_keys s2 = num_keys s1" "fresh s2 = Suc ?n"
      by blast
    let ?s3 = "set_top (last c) (Some ?n) (set_bottom ?n (Some (last c)) s2)"
    let ?g3 = "g1\<lparr>cols := L @ (c @ [?n]) # R\<rparr>"
    have step: "promote T k v m s temp new_node hgt = promote T k v m ?s3 temp' ?n (hgt + 1)"
      using True s1 wl tw la "1.prems"(8) by (subst promote.simps) (simp add: Let_def)
    have cne: "c \<noteq> []" using len by auto
    have old1: "hd c0 \<noteq> ?n" if "c0 \<in> set (cols g1)" for c0
      using hd_fresh[OF inv1 that] by simp
    have "\<exists>s' g' c' t' n'. promote T k v m ?s3 temp' ?n (hgt + 1)
        = Some (s', t', n', flips T k m (hgt + 1)) \<and>
      skip_inv s' g' \<and> cols g' = L @ c' # R \<and> length c' = Suc (flips T k m (hgt + 1)) \<and>
      hd c' = hd (c @ [?n]) \<and>
      (\<forall>a<fresh ?s3. kf s' a = kf ?s3 a \<and> vf s' a = vf ?s3 a) \<and>
      num_layers s' = max (num_layers ?s3) (flips T k m (hgt + 1) + 2) \<and>
      num_keys s' = num_keys ?s3"
    proof (rule "1.IH"[OF True inv3])
      show "cols ?g3 = L @ (c @ [?n]) # R" by simp
      show "length (c @ [?n]) = Suc (hgt + 1)" using len by simp
      show "kf ?s3 (hd l) < k" if "l \<in> set L" for l
        using keyL1[OF that] old1[of l] that cols1 by (simp add: s2)
      show "k < kf ?s3 (hd r)" if "r \<in> set R" for r
        using keyR1[OF that] old1[of r] that cols1 by (simp add: s2)
      show "kf ?s3 (hd (c @ [?n])) = k"
        using keyc1 old1[of c] cols1 cne by (simp add: s2)
      show "temp' = last (layer (hgt + 1) (hcol ?g3 # L))" using temp' by simp
      show "?n = last (c @ [?n])" by simp
    qed
    then obtain s' g' c' t' n' where
      r: "promote T k v m ?s3 temp' ?n (hgt + 1) = Some (s', t', n', flips T k m (hgt + 1))"
        "skip_inv s' g'" "cols g' = L @ c' # R" "length c' = Suc (flips T k m (hgt + 1))"
        "hd c' = hd (c @ [?n])"
        "\<forall>a<fresh ?s3. kf s' a = kf ?s3 a \<and> vf s' a = vf ?s3 a"
        "num_layers s' = max (num_layers ?s3) (flips T k m (hgt + 1) + 2)"
        "num_keys s' = num_keys ?s3"
      by blast
    have "\<forall>a<fresh s. kf s' a = kf s a \<and> vf s' a = vf s a"
    proof (intro allI impI)
      fix a assume a: "a < fresh s"
      then have "a < fresh ?s3" "a \<noteq> ?n" using fr1 s2 by auto
      with r(6) kv1 a show "kf s' a = kf s a \<and> vf s' a = vf s a" by (simp add: s2)
    qed
    moreover have "num_layers s' = max (num_layers s) (flips T k m (hgt + 1) + 2)"
      using r(7) nl1 s2 flips_ge[of "hgt + 1" T k m] by simp
    moreover have "hd c' = hd c" using r(5) cne by simp
    moreover have "num_keys s' = num_keys s" using r(8) s2 nk1 by simp
    ultimately show ?thesis
      unfolding f step using r(1,2,3,4) by blast
  qed
qed

lemma insert_run_dup:
  assumes "skip_inv s g" "c \<in> set (cols g)" "kf s (hd c) = k"
  shows "insert_run T s k v = Some (False, s, hd c, hd c, 0)"
  using pred_node_mem[OF assms] assms(3) by (simp add: insert_run_def locate_pos[OF assms(1)])

lemma insert_run_new:
  fixes s :: "('k::linorder, 'v) SkipList" and T :: "('k, 'v) tmpl"
  assumes inv: "skip_inv s g" and absent: "k \<notin> (\<lambda>c. kf s (hd c)) ` set (cols g)"
  defines "p \<equiv> flips T k (max_flips_of (num_keys s + 1)) 0"
  shows "\<exists>s' g' c' t' n'. insert_run T s k v = Some (True, s', t', n', p) \<and> skip_inv s' g' \<and>
    cols g' = lower s g k @ c' # upper s g k \<and> length c' = Suc p \<and>
    kf s' (hd c') = k \<and> vf s' (hd c') = v \<and>
    (\<forall>a<fresh s. kf s' a = kf s a \<and> vf s' a = vf s a) \<and>
    num_layers s' = max (num_layers s) (p + 2) \<and> num_keys s' = num_keys s + 1"
proof -
  let ?L = "lower s g k" and ?R = "upper s g k"
  let ?n = "fresh s" and ?temp = "pred_node s g k"
  from insert_bottom[OF inv absent, of v] obtain s1 where
    la: "link_after ?n ?temp (alloc (SkipNode_kv k v) s) = Some s1"
    and inv1: "skip_inv (s1\<lparr>num_keys := num_keys s1 + 1\<rparr>) (g\<lparr>cols := ?L @ [?n] # ?R\<rparr>)"
    and s1: "kf s1 = (kf s)(?n := k)" "vf s1 = (vf s)(?n := v)" "num_layers s1 = num_layers s"
      "num_keys s1 = num_keys s" "fresh s1 = Suc ?n"
    by blast
  let ?s1 = "s1\<lparr>num_keys := num_keys s1 + 1\<rparr>"
  let ?g1 = "g\<lparr>cols := ?L @ [?n] # ?R\<rparr>"
  have old: "hd c0 \<noteq> ?n" if "c0 \<in> set (cols g)" for c0
    using hd_fresh[OF inv that] by simp
  have "\<exists>s' g' c' t' n'. promote T k v (max_flips_of (num_keys s + 1)) ?s1 ?temp ?n 0
      = Some (s', t', n', flips T k (max_flips_of (num_keys s + 1)) 0) \<and>
    skip_inv s' g' \<and> cols g' = ?L @ c' # ?R \<and>
    length c' = Suc (flips T k (max_flips_of (num_keys s + 1)) 0) \<and> hd c' = hd [?n] \<and>
    (\<forall>a<fresh ?s1. kf s' a = kf ?s1 a \<and> vf s' a = vf ?s1 a) \<and>
    num_layers s' = max (num_layers ?s1) (flips T k (max_flips_of (num_keys s + 1)) 0 + 2) \<and>
    num_keys s' = num_keys ?s1"
  proof (rule promote_inv[OF inv1])
    show "cols ?g1 = ?L @ [?n] # ?R" by simp
    show "length [?n] = Suc 0" by simp
    show "kf ?s1 (hd l) < k" if "l \<in> set ?L" for l
      using lower_lt[OF inv absent that] old[of l] that lower_subset[of s g k] by (auto simp: s1)
    show "k < kf ?s1 (hd r)" if "r \<in> set ?R" for r
      using upper_gt[OF inv that] old[of r] that upper_subset[of s g k] by (auto simp: s1)
    show "kf ?s1 (hd [?n]) = k" by (simp add: s1)
    show "?temp = last (layer 0 (hcol ?g1 # ?L))" using pred_node_layer0[OF inv, of k] by simp
    show "?n = last [?n]" by simp
  qed
  then obtain s' g' c' t' n' where
    r: "promote T k v (max_flips_of (num_keys s + 1)) ?s1 ?temp ?n 0 = Some (s', t', n', p)"
      "skip_inv s' g'" "cols g' = ?L @ c' # ?R" "length c' = Suc p" "hd c' = ?n"
      "\<forall>a<fresh ?s1. kf s' a = kf ?s1 a \<and> vf s' a = vf ?s1 a"
      "num_layers s' = max (num_layers ?s1) (p + 2)" "num_keys s' = num_keys ?s1"
    unfolding p_def by auto
  have run: "insert_run T s k v = Some (True, s', t', n', p)"
    using pred_node_absent[OF inv absent] la r(1) s1(4)
    by (auto simp: insert_run_def locate_pos[OF inv] Let_def)
  have "kf s' (hd c') = k" "vf s' (hd c') = v"
    using r(5,6) by (simp_all add: s1)
  moreover have "\<forall>a<fresh s. kf s' a = kf s a \<and> vf s' a = vf s a"
    using r(6) by (simp add: s1)
  moreover have "num_layers s' = max (num_layers s) (p + 2)" "num_keys s' = num_keys s + 1"
    using r(7,8) s1 by simp_all
  ultimately show ?thesis using run r(2,3,4) by blast
qed

section \<open>The skip list as a sorted list of towers\<close>

lemma towers_keys: "map fst (towers s g) = map (\<lambda>c. kf s (hd c)) (cols g)"
  by (simp add: towers_def tower_of_def)

lemma map_of_towers:
  "map_of (map (tower_of s) cs) k =
     map_option (\<lambda>c. (vf s (hd c), length c)) (List.find (\<lambda>c. kf s (hd c) = k) cs)"
  by (induction cs) (auto simp: tower_of_def)

lemma abs_sorted:
  assumes "abs_of s A"
  shows "sorted_wrt (<) (map fst A)"
proof -
  from assms obtain g where g: "skip_inv s g" "towers s g = A" by (auto simp: abs_of_def)
  from inv_sorted[OF g(1)] show ?thesis unfolding g(2)[symmetric] towers_keys .
qed

lemma abs_distinct: "abs_of s A \<Longrightarrow> distinct (map fst A)"
  using abs_sorted[of s A] strict_sorted_iff by blast

lemma abs_size: "abs_of s A \<Longrightarrow> num_keys s = length A"
  using inv_nk by (fastforce simp: abs_of_def towers_def)

lemma abs_keys:
  assumes "abs_of s A"
  shows "allKeysInOrder s = Some (map fst A)"
proof -
  from assms obtain g where g: "skip_inv s g" "towers s g = A" by (auto simp: abs_of_def)
  from allKeysInOrder_inv[OF g(1)] show ?thesis unfolding g(2)[symmetric] towers_keys .
qed

lemma abs_find_ref:
  assumes "abs_of s A"
  shows "\<exists>f. find_ref s k = Some (case map_of A k of None \<Rightarrow> Inl RuntimeException | Some vh \<Rightarrow> Inr (f vh))
    \<and> (\<forall>vh. map_of A k = Some vh \<longrightarrow> vf s (f vh) = fst vh \<and> kf s (f vh) = k)"
proof -
  from assms obtain g where g: "skip_inv s g" "towers s g = A" by (auto simp: abs_of_def)
  show ?thesis
  proof (cases "List.find (\<lambda>c. kf s (hd c) = k) (cols g)")
    case None
    then show ?thesis
      using find_ref_inv[OF g(1), of k] unfolding g(2)[symmetric]
      by (simp add: towers_def map_of_towers)
  next
    case (Some c)
    then have "kf s (hd c) = k" by (auto simp: find_Some_iff)
    with Some show ?thesis
      using find_ref_inv[OF g(1), of k] unfolding g(2)[symmetric]
      by (intro exI[of _ "\<lambda>_. hd c"]) (auto simp: towers_def map_of_towers)
  qed
qed

lemma abs_find:
  assumes "abs_of s A"
  shows "find_sl s k = Some (case map_of A k of None \<Rightarrow> Inl RuntimeException | Some vh \<Rightarrow> Inr (fst vh))"
  using abs_find_ref[OF assms, of k] by (auto simp: find_sl_def split: option.splits)

lemma abs_height:
  assumes "abs_of s A"
  shows "height s k = Some (case map_of A k of None \<Rightarrow> Inl RuntimeException | Some vh \<Rightarrow> Inr (snd vh))"
proof -
  from assms obtain g where g: "skip_inv s g" "towers s g = A" by (auto simp: abs_of_def)
  show ?thesis
    using height_inv[OF g(1), of k] unfolding g(2)[symmetric]
    by (auto simp: towers_def map_of_towers split: option.splits)
qed

lemma abs_heights:
  assumes "abs_of s A" "(k, v, h) \<in> set A"
  shows "1 \<le> h \<and> h < num_layers s"
proof -
  from assms obtain g where g: "skip_inv s g" "towers s g = A" by (auto simp: abs_of_def)
  with assms(2) obtain c where "c \<in> set (cols g)" "h = length c"
    by (auto simp: towers_def tower_of_def)
  with inv_clen[OF g(1)] show ?thesis by simp
qed

lemma abs_init: "abs_of (SkipList_init T) []"
  using inv_init[of T] by (auto simp: abs_of_def towers_def)

lemma takeWhile_towers:
  "map (tower_of s) (lower s g k) = takeWhile (\<lambda>x. fst x \<le> k) (towers s g)"
  "map (tower_of s) (upper s g k) = dropWhile (\<lambda>x. fst x \<le> k) (towers s g)"
  by (simp_all add: towers_def lower_def upper_def takeWhile_map dropWhile_map comp_def tower_of_def)

lemma abs_insert_new:
  fixes s :: "('k::linorder, 'v) SkipList" and T :: "('k, 'v) tmpl"
  assumes "abs_of s A" "k \<notin> fst ` set A"
  defines "p \<equiv> flips T k (max_flips_of (num_keys s + 1)) 0"
  shows "\<exists>s' t n. insert_run T s k v = Some (True, s', t, n, p) \<and>
    abs_of s' (ins_tower k v (Suc p) A) \<and>
    num_layers s' = max (num_layers s) (p + 2) \<and> num_keys s' = num_keys s + 1"
proof -
  from assms obtain g where g: "skip_inv s g" "towers s g = A" by (auto simp: abs_of_def)
  have "k \<notin> (\<lambda>c. kf s (hd c)) ` set (cols g)"
    using assms(2) towers_keys[of s g] g(2) by (metis image_set)
  from insert_run_new[OF g(1) this, of T v] obtain s' g' c' t' n' where
    r: "insert_run T s k v = Some (True, s', t', n', p)" "skip_inv s' g'"
      "cols g' = lower s g k @ c' # upper s g k" "length c' = Suc p"
      "kf s' (hd c') = k" "vf s' (hd c') = v"
      "\<forall>a<fresh s. kf s' a = kf s a \<and> vf s' a = vf s a"
      "num_layers s' = max (num_layers s) (p + 2)" "num_keys s' = num_keys s + 1"
    unfolding p_def by blast
  have old: "tower_of s' c = tower_of s c" if "c \<in> set (cols g)" for c
    using hd_fresh[OF g(1) that] r(7) by (simp add: tower_of_def)
  have "map (tower_of s') (lower s g k) = map (tower_of s) (lower s g k)"
    "map (tower_of s') (upper s g k) = map (tower_of s) (upper s g k)"
    using old lower_subset[of s g k] upper_subset[of s g k] by auto
  then have "towers s' g' = ins_tower k v (Suc p) A"
    using r(3,4,5,6) g(2) by (simp add: towers_def ins_tower_def takeWhile_towers tower_of_def)
  with r show ?thesis unfolding abs_of_def by blast
qed

lemma abs_insert_dup:
  assumes "abs_of s A" "k \<in> fst ` set A"
  shows "\<exists>t. insert_run T s k v = Some (False, s, t, t, 0)"
proof -
  from assms obtain g where g: "skip_inv s g" "towers s g = A" by (auto simp: abs_of_def)
  have "k \<in> (\<lambda>c. kf s (hd c)) ` set (cols g)"
    using assms(2) towers_keys[of s g] g(2) by (metis image_set)
  then obtain c where "c \<in> set (cols g)" "kf s (hd c) = k" by auto
  from insert_run_dup[OF g(1) this] show ?thesis by blast
qed

lemma inv_set_val: "skip_inv s g \<Longrightarrow> skip_inv (set_val r w s) g"
  by (simp add: skip_inv_def)

lemma abs_assign:
  assumes "abs_of s A" "find_ref s k = Some (Inr r)"
  shows "abs_of (assign r w s) (map (\<lambda>x. if fst x = k then (k, w, snd (snd x)) else x) A)"
proof -
  from assms obtain g where g: "skip_inv s g" "towers s g = A" by (auto simp: abs_of_def)
  from assms(2) find_ref_inv[OF g(1), of k] obtain c where
    c: "List.find (\<lambda>c. kf s (hd c) = k) (cols g) = Some c" "r = hd c"
    by (auto split: option.splits)
  then have cm: "c \<in> set (cols g)" "kf s (hd c) = k" by (auto simp: find_Some_iff)
  have "tower_of (set_val r w s) c0 = (if fst (tower_of s c0) = k then (k, w, snd (snd (tower_of s c0)))
      else tower_of s c0)" if c0: "c0 \<in> set (cols g)" for c0
  proof (cases "hd c0 = r")
    case True
    have "kf s (hd c0) = k" using True c(2) cm(2) by simp
    with True show ?thesis by (simp add: tower_of_def)
  next
    case False
    have "kf s (hd c0) \<noteq> k"
    proof
      assume "kf s (hd c0) = k"
      from pred_node_mem(1)[OF g(1) c0 this] pred_node_mem(1)[OF g(1) cm] False c(2)
      show False by simp
    qed
    with False show ?thesis by (simp add: tower_of_def)
  qed
  then have "towers (set_val r w s) g = map (\<lambda>x. if fst x = k then (k, w, snd (snd x)) else x) A"
    unfolding g(2)[symmetric] towers_def by simp
  with inv_set_val[OF g(1)] show ?thesis unfolding abs_of_def assign_def by blast
qed

lemma abs_assign_any: "abs_of s A \<Longrightarrow> \<exists>A'. abs_of (assign r w s) A' \<and> map (\<lambda>x. (fst x, snd (snd x))) A' = map (\<lambda>x. (fst x, snd (snd x))) A"
  unfolding abs_of_def assign_def
  using inv_set_val by (fastforce simp: towers_def tower_of_def)

lemma insert_sl_run: "insert_sl T s k v = Some (b, s') \<longleftrightarrow> (\<exists>t n p. insert_run T s k v = Some (b, s', t, n, p))"
  by (auto simp: insert_sl_def)

lemma reachable_abs: "reachable T s \<Longrightarrow> \<exists>A. abs_of s A"
proof (induction rule: reachable.induct)
  case init
  then show ?case using abs_init by blast
next
  case (ins s k v b s')
  then obtain A where A: "abs_of s A" by blast
  show ?case
  proof (cases "k \<in> fst ` set A")
    case True
    from abs_insert_dup[OF A True, of T v] ins.hyps(2) A show ?thesis
      by (auto simp: insert_sl_def)
  next
    case False
    from abs_insert_new[OF A False, of T v] ins.hyps(2) show ?thesis
      by (auto simp: insert_sl_def)
  qed
next
  case (upd s k r v)
  then obtain A where A: "abs_of s A" by blast
  from abs_assign[OF A upd.hyps(2)] show ?case by blast
qed

section \<open>Facts about sorted lists of towers\<close>

lemma map_of_ins_tower:
  assumes "k \<notin> fst ` set A"
  shows "map_of (ins_tower k v h A) k' = (if k' = k then Some (v, h) else map_of A k')"
proof -
  let ?xs = "takeWhile (\<lambda>x. fst x \<le> k) A" and ?ys = "dropWhile (\<lambda>x. fst x \<le> k) A"
  have A: "?xs @ ?ys = A" by simp
  have "k \<notin> fst ` set ?xs" using assms by (metis A Un_iff image_Un set_append)
  then have "k \<notin> dom (map_of ?xs)" by (simp add: dom_map_of_conv_image_fst)
  then have "(map_of ?ys)(k \<mapsto> (v, h)) ++ map_of ?xs = (map_of ?ys ++ map_of ?xs)(k \<mapsto> (v, h))"
    by (rule map_add_upd_left)
  then have "map_of (?xs @ (k, v, h) # ?ys) = (map_of (?xs @ ?ys))(k \<mapsto> (v, h))"
    by (simp only: map_of_append map_of.simps fst_conv snd_conv)
  then show ?thesis unfolding ins_tower_def A by simp
qed

lemma set_ins_tower: "fst ` set (ins_tower k v h A) = insert k (fst ` set A)"
proof -
  have "set A = set (takeWhile (\<lambda>x. fst x \<le> k) A) \<union> set (dropWhile (\<lambda>x. fst x \<le> k) A)"
    by (metis set_append takeWhile_dropWhile_id)
  then show ?thesis unfolding ins_tower_def by auto
qed

lemma length_ins_tower: "length (ins_tower k v h A) = Suc (length A)"
proof -
  have "length A = length (takeWhile (\<lambda>x. fst x \<le> k) A) + length (dropWhile (\<lambda>x. fst x \<le> k) A)"
    by (metis length_append takeWhile_dropWhile_id)
  then show ?thesis unfolding ins_tower_def by simp
qed

lemma next_in_sorted:
  fixes f :: "'a \<Rightarrow> 'k::linorder"
  assumes "sorted_wrt (<) (map f cs)"
  shows "(case dropWhile (\<lambda>c. f c \<noteq> k) cs of [] \<Rightarrow> Inl e | [c] \<Rightarrow> Inl e | c # r # _ \<Rightarrow> Inr (f r))
    = (if k \<in> f ` set cs \<and> (\<exists>k'\<in>f ` set cs. k < k') then Inr (Min {k' \<in> f ` set cs. k < k'})
       else Inl e)"
proof (cases "k \<in> f ` set cs")
  case False
  then have "dropWhile (\<lambda>c. f c \<noteq> k) cs = []" by auto
  with False show ?thesis by (simp del: dropWhile_eq_Nil_conv)
next
  case True
  then obtain c where "c \<in> set cs" "f c = k" by auto
  then obtain xs ys where cs: "cs = xs @ c # ys" by (meson split_list)
  from assms have xs: "\<forall>x\<in>set xs. f x < k" and ys: "\<forall>y\<in>set ys. k < f y"
    and sy: "sorted_wrt (<) (map f ys)"
    unfolding cs using \<open>f c = k\<close> by (auto simp: sorted_wrt_append)
  have "dropWhile (\<lambda>c. f c \<noteq> k) (xs @ c # ys) = dropWhile (\<lambda>c. f c \<noteq> k) (c # ys)"
    using xs by (intro dropWhile_append2) auto
  then have dw: "dropWhile (\<lambda>c. f c \<noteq> k) cs = c # ys" using \<open>f c = k\<close> cs by simp
  have gt: "{k' \<in> f ` set cs. k < k'} = f ` set ys"
    unfolding cs using xs ys \<open>f c = k\<close> by (auto simp: image_iff)
  show ?thesis
  proof (cases ys)
    case Nil
    with dw gt True show ?thesis by simp
  next
    case (Cons r ys')
    have "Min (f ` set ys) = f r"
      using sy unfolding Cons by (intro Min_eqI) auto
    moreover have "\<exists>k'\<in>f ` set cs. k < k'"
      using gt Cons by (metis (mono_tags, lifting) imageI list.set_intros(1) mem_Collect_eq)
    ultimately show ?thesis using dw gt True Cons by simp
  qed
qed

lemma prev_in_sorted:
  fixes f :: "'a \<Rightarrow> 'k::linorder"
  assumes "sorted_wrt (<) (map f cs)"
  shows "(case dropWhile (\<lambda>c. f c \<noteq> k) (rev cs) of [] \<Rightarrow> Inl e | [c] \<Rightarrow> Inl e | c # r # _ \<Rightarrow> Inr (f r))
    = (if k \<in> f ` set cs \<and> (\<exists>k'\<in>f ` set cs. k' < k) then Inr (Max {k' \<in> f ` set cs. k' < k})
       else Inl e)"
proof (cases "k \<in> f ` set cs")
  case False
  then have "dropWhile (\<lambda>c. f c \<noteq> k) (rev cs) = []" by auto
  with False show ?thesis by (simp del: dropWhile_eq_Nil_conv)
next
  case True
  then obtain c where "c \<in> set cs" "f c = k" by auto
  then obtain xs ys where cs: "cs = xs @ c # ys" by (meson split_list)
  from assms have xs: "\<forall>x\<in>set xs. f x < k" and ys: "\<forall>y\<in>set ys. k < f y"
    and sx: "sorted_wrt (<) (map f xs)"
    unfolding cs using \<open>f c = k\<close> by (auto simp: sorted_wrt_append)
  have "dropWhile (\<lambda>c. f c \<noteq> k) (rev ys @ c # rev xs) = dropWhile (\<lambda>c. f c \<noteq> k) (c # rev xs)"
    using ys by (intro dropWhile_append2) auto
  then have dw: "dropWhile (\<lambda>c. f c \<noteq> k) (rev cs) = c # rev xs" using \<open>f c = k\<close> cs by simp
  have lt: "{k' \<in> f ` set cs. k' < k} = f ` set xs"
    unfolding cs using xs ys \<open>f c = k\<close> by (auto simp: image_iff)
  show ?thesis
  proof (cases xs rule: rev_cases)
    case Nil
    with dw lt True show ?thesis by simp
  next
    case (snoc xs' r)
    have "Max (f ` set xs) = f r"
      using sx unfolding snoc by (intro Max_eqI) (auto simp: sorted_wrt_append less_imp_le)
    moreover have "\<exists>k'\<in>f ` set cs. k' < k"
      using lt snoc by (metis (mono_tags, lifting) imageI in_set_conv_decomp mem_Collect_eq)
    ultimately show ?thesis using dw lt True snoc by simp
  qed
qed

lemma abs_nextKey:
  assumes "abs_of s A"
  shows "nextKey s k = Some (if k \<in> fst ` set A \<and> (\<exists>k'\<in>fst ` set A. k < k')
      then Inr (Min {k' \<in> fst ` set A. k < k'}) else Inl RuntimeException)"
proof -
  from assms obtain g where g: "skip_inv s g" "towers s g = A" by (auto simp: abs_of_def)
  have "fst ` set A = (\<lambda>c. kf s (hd c)) ` set (cols g)"
    using towers_keys[of s g] g(2) by (metis image_set)
  then show ?thesis
    using nextKey_inv[OF g(1), of k] next_in_sorted[OF inv_sorted[OF g(1)], where k = k and e = RuntimeException]
    by simp
qed

lemma abs_previousKey:
  assumes "abs_of s A"
  shows "previousKey s k = Some (if k \<in> fst ` set A \<and> (\<exists>k'\<in>fst ` set A. k' < k)
      then Inr (Max {k' \<in> fst ` set A. k' < k}) else Inl RuntimeException)"
proof -
  from assms obtain g where g: "skip_inv s g" "towers s g = A" by (auto simp: abs_of_def)
  have "fst ` set A = (\<lambda>c. kf s (hd c)) ` set (cols g)"
    using towers_keys[of s g] g(2) by (metis image_set)
  then show ?thesis
    using previousKey_inv[OF g(1), of k] prev_in_sorted[OF inv_sorted[OF g(1)], where k = k and e = RuntimeException]
    by simp
qed

lemma abs_top_layer:
  assumes "abs_of s A"
  shows "2 \<le> num_layers s \<and> (\<exists>h t. head s = Some h \<and> tail s = Some t \<and> nx s h = Some t \<and>
    pv s t = Some h \<and> ninf s h \<and> pinf s t)"
proof -
  from assms obtain g where g: "skip_inv s g" by (auto simp: abs_of_def)
  let ?j = "num_layers s - 1"
  have nl: "2 \<le> num_layers s" "?j < num_layers s" using inv_nl[OF g] by auto
  have "layer ?j (cols g) = []"
    using inv_clen[OF g] by (fastforce simp: layer_def filter_empty_conv)
  then have "layer ?j (all_cols g) = [last (hcol g), last (tcol g)]"
    using inv_hlen[OF g] inv_tlen[OF g] nl hcol_ne[OF g] tcol_ne[OF g]
    by (simp add: all_cols_def last_conv_nth)
  with inv_horiz[OF g nl(2)] have "nx s (last (hcol g)) = Some (last (tcol g))"
    "pv s (last (tcol g)) = Some (last (hcol g))" by simp_all
  moreover have "ninf s (last (hcol g))" "pinf s (last (tcol g))"
    using inv_ninf[OF g] inv_pinf[OF g] hcol_ne[OF g] tcol_ne[OF g] by simp_all
  ultimately show ?thesis using nl(1) inv_head[OF g] inv_tail[OF g] by simp
qed

section \<open>Evaluating the operations on concrete skip lists\<close>

text \<open>
  Rules that evaluate the operations on a concrete skip list with the simplifier.  The
  congruence rules make it evaluate what is tested or bound before it looks at what follows.
\<close>

lemma bind_weak_cong: "m = m' \<Longrightarrow> Option.bind m f = Option.bind m' f"
  by simp

lemmas eval_simps = walk_right.simps descend.simps count_top.simps promote.simps walk_left.simps
  go_bottom.simps collect_keys.simps go_last.simps
  insert_sl_def insert_run_def locate_def height_def SkipList_init_def alloc_def
  set_next_def set_previous_def set_top_def set_bottom_def set_n_inf_def set_p_inf_def
  SkipNode_default_def SkipNode_kv_def unsigned_tmpl_def string_tmpl_def
  flipCoin_unsigned_def flipCoin_string_def char_at0_def
  link_after_def add_layer_def max_flips_of_def numLayers_def size_sl_def isEmpty_def
  isSmallestKey_def isLargestKey_def allKeysInOrder_def nextKey_def previousKey_def
  find_ref_def find_sl_def assign_def set_val_def involved_heights_def Let_def

lemmas eval_congs = if_weak_cong option.case_cong_weak let_weak_cong bind_weak_cong

lemma example_ins:
  "insert_sl unsigned_tmpl (SkipList_init unsigned_tmpl) 5 7 = Some (True, example_sl)"
  unfolding example_sl_def
  by (simp add: eval_simps cong: eval_congs del: proj_fold)

lemma example_keys: "allKeysInOrder example_sl = Some [5]"
  unfolding example_sl_def
  by (simp add: eval_simps cong: eval_congs del: proj_fold)

lemma init_keys: "allKeysInOrder (SkipList_init (T :: ('k::linorder, 'v) tmpl)) = Some []"
  using abs_keys[OF abs_init[of T]] by simp

lemma example_reachable: "reachable unsigned_tmpl example_sl"
  by (rule reachable.ins[OF reachable.init example_ins])


section \<open>The claims\<close>

lemma keys_abs:
  assumes "abs_of s A" "allKeysInOrder s = Some ks"
  shows "set ks = fst ` set A" "ks = map fst A"
  using abs_keys[OF assms(1)] assms(2) by auto

lemma map_of_present:
  assumes "k \<in> fst ` set A"
  obtains vh where "map_of A k = Some vh"
  using assms by (cases "map_of A k") (auto simp: map_of_eq_None_iff)

lemma map_of_assign:
  "map_of (map (\<lambda>x. if fst x = k then (k, w, snd (snd x)) else x) A) k' =
     (if k' = k then map_option (\<lambda>vh. (w, snd vh)) (map_of A k) else map_of A k')"
  by (induction A) auto

text \<open>
  Claim C2.  In every reachable skip list in which \<open>k\<close> is one of the keys, \<^verbatim>\<open>find\<close>
  returns a value for \<open>k\<close>, and \<^verbatim>\<open>insert\<close> of \<open>k\<close> with any value returns false and the
  skip list it leaves is the one it started from (so \<^verbatim>\<open>find\<close> and \<^verbatim>\<open>size\<close> are unchanged).
\<close>

theorem C2_insert_present:
  assumes "reachable T s" "allKeysInOrder s = Some ks" "k \<in> set ks"
  shows "\<exists>w. find_sl s k = Some (Inr w) \<and> insert_sl T s k v = Some (False, s)"
proof -
  from reachable_abs[OF assms(1)] obtain A where A: "abs_of s A" by blast
  have mem: "k \<in> fst ` set A" using keys_abs(1)[OF A assms(2)] assms(3) by simp
  from map_of_present[OF mem] obtain vh where "map_of A k = Some vh" .
  then have "find_sl s k = Some (Inr (fst vh))" using abs_find[OF A, of k] by simp
  moreover from abs_insert_dup[OF A mem, of T v] have "insert_sl T s k v = Some (False, s)"
    by (auto simp: insert_sl_def)
  ultimately show ?thesis by blast
qed

theorem C2_witness:
  "reachable unsigned_tmpl example_sl \<and> allKeysInOrder example_sl = Some [5] \<and>
   (5 :: 32 word) \<in> set [5] \<and>
   (\<exists>w. find_sl example_sl 5 = Some (Inr w) \<and>
        insert_sl unsigned_tmpl example_sl 5 9 = Some (False, example_sl))"
proof -
  have m: "(5 :: 32 word) \<in> set [5]" by simp
  from C2_insert_present[OF example_reachable example_keys m, of 9]
  show ?thesis using example_reachable example_keys by simp
qed

text \<open>
  Claim C8.  In every reachable skip list that does not hold \<open>k\<close>, \<^verbatim>\<open>insert\<close> of \<open>k\<close>
  with \<open>v\<close> succeeds; afterwards \<^verbatim>\<open>find\<close> returns \<open>v\<close> for \<open>k\<close>, and a value written
  through the reference that \<^verbatim>\<open>find\<close> returns is what the next \<^verbatim>\<open>find\<close> of \<open>k\<close> returns.
\<close>

theorem C8_insert_find_roundtrip:
  assumes "reachable T s" "allKeysInOrder s = Some ks" "k \<notin> set ks"
  shows "\<exists>s' r. insert_sl T s k v = Some (True, s') \<and> find_sl s' k = Some (Inr v) \<and>
    find_ref s' k = Some (Inr r) \<and> (\<forall>w. find_sl (assign r w s') k = Some (Inr w))"
proof -
  from reachable_abs[OF assms(1)] obtain A where A: "abs_of s A" by blast
  have nmem: "k \<notin> fst ` set A" using keys_abs(1)[OF A assms(2)] assms(3) by simp
  from abs_insert_new[OF A nmem, of T v] obtain s' t n p where
    run: "insert_run T s k v = Some (True, s', t, n, p)"
    and A': "abs_of s' (ins_tower k v (Suc p) A)"
    by blast
  let ?A' = "ins_tower k v (Suc p) A"
  have mo: "map_of ?A' k = Some (v, Suc p)" using map_of_ins_tower[OF nmem] by simp
  have ins: "insert_sl T s k v = Some (True, s')" using run by (simp add: insert_sl_def)
  have f: "find_sl s' k = Some (Inr v)" using abs_find[OF A', of k] mo by simp
  from abs_find_ref[OF A', of k] mo obtain r where r: "find_ref s' k = Some (Inr r)" by auto
  have "find_sl (assign r w s') k = Some (Inr w)" for w
    using abs_find[OF abs_assign[OF A' r, of w], of k] mo by (simp add: map_of_assign)
  with ins f r show ?thesis by blast
qed

theorem C8_witness:
  "reachable unsigned_tmpl (SkipList_init unsigned_tmpl) \<and>
   allKeysInOrder (SkipList_init unsigned_tmpl) = Some [] \<and> (5 :: 32 word) \<notin> set [] \<and>
   (\<exists>s' r. insert_sl unsigned_tmpl (SkipList_init unsigned_tmpl) 5 7 = Some (True, s') \<and>
      find_sl s' 5 = Some (Inr 7) \<and> find_ref s' 5 = Some (Inr r) \<and>
      (\<forall>w. find_sl (assign r w s') 5 = Some (Inr w)))"
proof -
  have m: "(5 :: 32 word) \<notin> set []" by simp
  from C8_insert_find_roundtrip[OF reachable.init init_keys m, of unsigned_tmpl 7]
  show ?thesis using reachable.init[of unsigned_tmpl] init_keys[of unsigned_tmpl] by simp
qed

text \<open>
  Claim C10.  In every reachable skip list that does not hold \<open>k\<close>, \<^verbatim>\<open>insert\<close> of \<open>k\<close>
  succeeds, \<^verbatim>\<open>size\<close> grows by exactly one, and \<^verbatim>\<open>find\<close> of every other key returns what
  it returned before.
\<close>

theorem C10_insert_frame:
  assumes "reachable T s" "allKeysInOrder s = Some ks" "k \<notin> set ks"
  shows "\<exists>s'. insert_sl T s k v = Some (True, s') \<and> size_sl s' = size_sl s + 1 \<and>
    (\<forall>k'. k' \<noteq> k \<longrightarrow> find_sl s' k' = find_sl s k')"
proof -
  from reachable_abs[OF assms(1)] obtain A where A: "abs_of s A" by blast
  have nmem: "k \<notin> fst ` set A" using keys_abs(1)[OF A assms(2)] assms(3) by simp
  from abs_insert_new[OF A nmem, of T v] obtain s' t n p where
    run: "insert_run T s k v = Some (True, s', t, n, p)"
    and A': "abs_of s' (ins_tower k v (Suc p) A)" and nk: "num_keys s' = num_keys s + 1"
    by blast
  have ins: "insert_sl T s k v = Some (True, s')" using run by (simp add: insert_sl_def)
  have "find_sl s' k' = find_sl s k'" if "k' \<noteq> k" for k'
    using abs_find[OF A', of k'] abs_find[OF A, of k'] map_of_ins_tower[OF nmem, of v "Suc p" k'] that
    by simp
  with ins nk show ?thesis by (auto simp: size_sl_def)
qed

theorem C10_witness:
  "reachable unsigned_tmpl example_sl \<and> allKeysInOrder example_sl = Some [5] \<and>
   (3 :: 32 word) \<notin> set [5] \<and>
   (\<exists>s'. insert_sl unsigned_tmpl example_sl 3 4 = Some (True, s') \<and>
      size_sl s' = size_sl example_sl + 1 \<and>
      (\<forall>k'. k' \<noteq> 3 \<longrightarrow> find_sl s' k' = find_sl example_sl k'))"
proof -
  have m: "(3 :: 32 word) \<notin> set [5]" by simp
  from C10_insert_frame[OF example_reachable example_keys m, of 4]
  show ?thesis using example_reachable example_keys by simp
qed

lemma max_flips_pos: "0 < max_flips_of n"
proof (cases "n \<le> 16")
  case True
  then show ?thesis by (simp add: max_flips_of_def)
next
  case False
  then have "0 < n" "2 ^ 1 < 2 * n" by simp_all
  then have "1 \<le> ceillog2 n" using ceillog2_ge_iff[of n 1] by blast
  with False show ?thesis by (simp add: max_flips_of_def)
qed

lemma insert_run_cases:
  fixes s :: "('k::linorder, 'v) SkipList" and T :: "('k, 'v) tmpl"
  assumes "abs_of s A" "insert_run T s k v = Some (b, s', t, n, p)"
  shows "(b \<longleftrightarrow> k \<notin> fst ` set A) \<and>
    (\<not> b \<longrightarrow> s' = s \<and> p = 0) \<and>
    (b \<longrightarrow> p = flips T k (max_flips_of (num_keys s + 1)) 0 \<and> abs_of s' (ins_tower k v (Suc p) A) \<and>
       num_layers s' = max (num_layers s) (p + 2) \<and> num_keys s' = num_keys s + 1)"
proof (cases "k \<in> fst ` set A")
  case True
  from abs_insert_dup[OF assms(1) True, of T v] assms(2) True show ?thesis by auto
next
  case False
  from abs_insert_new[OF assms(1) False, of T v] assms(2) False show ?thesis by auto
qed

lemma inserted_with_abs:
  assumes "inserted_with T s M"
  shows "\<exists>A. abs_of s A \<and> (\<forall>k. map_option snd (map_of A k) = map_option (\<lambda>m. Suc (flips T k m 0)) (M k))
    \<and> (\<forall>k m. M k = Some m \<longrightarrow> 0 < m)"
  using assms
proof (induction rule: inserted_with.induct)
  case init
  show ?case using abs_init[of T] by (intro exI[of _ "[]"]) simp
next
  case (new s M k v s')
  then obtain A where A: "abs_of s A"
    and h: "\<forall>k. map_option snd (map_of A k) = map_option (\<lambda>m. Suc (flips T k m 0)) (M k)"
    and pos: "\<forall>k m. M k = Some m \<longrightarrow> 0 < m" by blast
  from new.hyps(2) obtain t n p where run: "insert_run T s k v = Some (True, s', t, n, p)"
    by (auto simp: insert_sl_def)
  from insert_run_cases[OF A run] have nmem: "k \<notin> fst ` set A"
    and p: "p = flips T k (max_flips_of (num_keys s + 1)) 0"
    and A': "abs_of s' (ins_tower k v (Suc p) A)" by auto
  show ?case
    using A' h pos p max_flips_pos[of "num_keys s + 1"]
    by (intro exI[of _ "ins_tower k v (Suc p) A"]) (auto simp: map_of_ins_tower[OF nmem])
next
  case (dup s M k v s')
  then obtain A where A: "abs_of s A"
    and h: "\<forall>k. map_option snd (map_of A k) = map_option (\<lambda>m. Suc (flips T k m 0)) (M k)"
    and pos: "\<forall>k m. M k = Some m \<longrightarrow> 0 < m" by blast
  from dup.hyps(2) obtain t n p where run: "insert_run T s k v = Some (False, s', t, n, p)"
    by (auto simp: insert_sl_def)
  from insert_run_cases[OF A run] have "s' = s" by simp
  with A h pos show ?case by blast
next
  case (upd s M k r v)
  then obtain A where A: "abs_of s A"
    and h: "\<forall>k. map_option snd (map_of A k) = map_option (\<lambda>m. Suc (flips T k m 0)) (M k)"
    and pos: "\<forall>k m. M k = Some m \<longrightarrow> 0 < m" by blast
  let ?A' = "map (\<lambda>x. if fst x = k then (k, v, snd (snd x)) else x) A"
  have "map_option snd (map_of ?A' k') = map_option snd (map_of A k')" for k'
    by (cases "map_of A k") (auto simp: map_of_assign)
  with abs_assign[OF A upd.hyps(2), of v] h pos show ?case
    by (intro exI[of _ ?A']) simp
qed

text \<open>
  Claim C3.  \<open>inserted_with T s M\<close> records, for each key of a skip list built by inserts
  (and writes through references), the \<^verbatim>\<open>max_flips\<close> computed at its insertion: 12 if
  \<^verbatim>\<open>num_keys\<close>, counted with the new key, is at most 16, and three times the rounded-up
  binary logarithm of it otherwise.  A successful \<^verbatim>\<open>insert\<close> ends its promotion loop with the
  number of promotions that the loop condition (the coin shows heads and
  \<^verbatim>\<open>height + 1 < max_flips\<close>) allows from 0.  Every key that is present has a height of one
  more than that number, which is at least 1 and at most the \<^verbatim>\<open>max_flips\<close> of its insertion,
  and \<^verbatim>\<open>height\<close> throws for every other key.
\<close>

theorem C3_height_bounded_by_max_flips:
  assumes "inserted_with T s M"
  shows "height s k = Some (case M k of None \<Rightarrow> Inl RuntimeException
                            | Some m \<Rightarrow> Inr (Suc (flips T k m 0))) \<and>
    (\<forall>m. M k = Some m \<longrightarrow> 1 \<le> Suc (flips T k m 0) \<and> Suc (flips T k m 0) \<le> m) \<and>
    (\<forall>v s' t n p. insert_run T s k v = Some (True, s', t, n, p) \<longrightarrow>
       p = flips T k (if num_keys s + 1 \<le> 16 then 12 else 3 * ceillog2 (num_keys s + 1)) 0 \<and>
       num_keys s' = num_keys s + 1 \<and>
       inserted_with T s'
         (M(k \<mapsto> if num_keys s + 1 \<le> 16 then 12 else 3 * ceillog2 (num_keys s + 1))))"
proof -
  from inserted_with_abs[OF assms] obtain A where A: "abs_of s A"
    and h: "\<forall>k. map_option snd (map_of A k) = map_option (\<lambda>m. Suc (flips T k m 0)) (M k)"
    and pos: "\<forall>k m. M k = Some m \<longrightarrow> 0 < m" by blast
  have "height s k = Some (case M k of None \<Rightarrow> Inl RuntimeException
                            | Some m \<Rightarrow> Inr (Suc (flips T k m 0)))"
    using abs_height[OF A, of k] h[rule_format, of k]
    by (cases "map_of A k"; cases "M k") auto
  moreover have "1 \<le> Suc (flips T k m 0) \<and> Suc (flips T k m 0) \<le> m" if "M k = Some m" for m
    using flips_lt[of 0 m T k] pos that by auto
  moreover have "p = flips T k (if num_keys s + 1 \<le> 16 then 12 else 3 * ceillog2 (num_keys s + 1)) 0 \<and>
       num_keys s' = num_keys s + 1 \<and>
       inserted_with T s'
         (M(k \<mapsto> if num_keys s + 1 \<le> 16 then 12 else 3 * ceillog2 (num_keys s + 1)))"
    if run: "insert_run T s k v = Some (True, s', t, n, p)" for v s' t n p
  proof -
    have "insert_sl T s k v = Some (True, s')" using run by (simp add: insert_sl_def)
    from inserted_with.new[OF assms this, unfolded max_flips_of_def]
      insert_run_cases[OF A run, unfolded max_flips_of_def]
    show ?thesis by blast
  qed
  ultimately show ?thesis by blast
qed

lemma example_inserted: "inserted_with unsigned_tmpl example_sl (Map.empty(5 \<mapsto> 12))"
  using inserted_with.new[OF inserted_with.init example_ins]
  by (simp add: init_fields max_flips_of_def)

theorem C3_witness:
  "inserted_with unsigned_tmpl example_sl (Map.empty(5 \<mapsto> 12)) \<and>
   height example_sl 5 = Some (Inr (Suc (flips unsigned_tmpl 5 12 0))) \<and>
   Suc (flips unsigned_tmpl 5 12 0) \<le> 12 \<and>
   height example_sl 6 = Some (Inl RuntimeException)"
  using C3_height_bounded_by_max_flips[OF example_inserted, of 5]
    C3_height_bounded_by_max_flips[OF example_inserted, of 6] example_inserted
  by simp

text \<open>
  Claim C5.  In every reachable skip list, with \<open>ks\<close> the keys that \<^verbatim>\<open>allKeysInOrder\<close>
  returns: \<^verbatim>\<open>nextKey\<close> of \<open>k\<close> throws exactly if \<open>k\<close> is not among them or none of them
  is larger, and returns the least larger one otherwise; \<^verbatim>\<open>previousKey\<close> throws exactly
  if \<open>k\<close> is not among them or none of them is smaller, and returns the greatest smaller
  one otherwise.
\<close>

theorem C5_next_previous_key:
  assumes "reachable T s"
  shows "\<exists>ks. allKeysInOrder s = Some ks \<and>
    nextKey s k = Some (if k \<in> set ks \<and> (\<exists>k'\<in>set ks. k < k')
                        then Inr (Min {k' \<in> set ks. k < k'}) else Inl RuntimeException) \<and>
    previousKey s k = Some (if k \<in> set ks \<and> (\<exists>k'\<in>set ks. k' < k)
                        then Inr (Max {k' \<in> set ks. k' < k}) else Inl RuntimeException)"
proof -
  from reachable_abs[OF assms] obtain A where A: "abs_of s A" by blast
  have "set (map fst A) = fst ` set A" by simp
  with abs_keys[OF A] abs_nextKey[OF A, of k] abs_previousKey[OF A, of k]
  show ?thesis by (intro exI[of _ "map fst A"]) (simp only: simp_thms)
qed

theorem C5_witness:
  "reachable unsigned_tmpl example_sl \<and>
   (\<exists>ks. allKeysInOrder example_sl = Some ks \<and>
    nextKey example_sl 5 = Some (if 5 \<in> set ks \<and> (\<exists>k'\<in>set ks. 5 < k')
                        then Inr (Min {k' \<in> set ks. 5 < k'}) else Inl RuntimeException) \<and>
    previousKey example_sl 5 = Some (if 5 \<in> set ks \<and> (\<exists>k'\<in>set ks. k' < 5)
                        then Inr (Max {k' \<in> set ks. k' < 5}) else Inl RuntimeException))"
  using C5_next_previous_key[OF example_reachable, of 5] example_reachable by blast

lemma insert_all_abs:
  fixes s :: "('k::linorder, 'v) SkipList"
  assumes "abs_of s A" "distinct (map fst kvs)" "fst ` set kvs \<inter> fst ` set A = {}"
  shows "\<exists>s' A'. insert_all T s kvs = Some s' \<and> abs_of s' A' \<and>
    fst ` set A' = fst ` set A \<union> fst ` set kvs"
  using assms
proof (induction kvs arbitrary: s A)
  case Nil
  then show ?case by auto
next
  case (Cons kv kvs)
  have nmem: "fst kv \<notin> fst ` set A" using Cons.prems(3) by auto
  from abs_insert_new[OF Cons.prems(1) nmem, of T "snd kv"] obtain s1 t n p where
    run: "insert_run T s (fst kv) (snd kv) = Some (True, s1, t, n, p)"
    and A1: "abs_of s1 (ins_tower (fst kv) (snd kv) (Suc p) A)"
    by blast
  let ?A1 = "ins_tower (fst kv) (snd kv) (Suc p) A"
  have keys1: "fst ` set ?A1 = insert (fst kv) (fst ` set A)" by (rule set_ins_tower)
  have "distinct (map fst kvs)" "fst ` set kvs \<inter> fst ` set ?A1 = {}"
    using Cons.prems(2,3) unfolding keys1 by auto
  from Cons.IH[OF A1 this] obtain s' A' where
    "insert_all T s1 kvs = Some s'" "abs_of s' A'" "fst ` set A' = fst ` set ?A1 \<union> fst ` set kvs"
    by blast
  moreover have "insert_sl T s (fst kv) (snd kv) = Some (True, s1)"
    using run by (simp add: insert_sl_def)
  ultimately show ?case unfolding keys1 by (intro exI[of _ s'] exI[of _ A']) auto
qed

text \<open>
  Claim C6.  Inserting key-value pairs with distinct keys into the empty skip list, in
  whatever order they come, succeeds at every insert, and \<^verbatim>\<open>allKeysInOrder\<close> then returns
  the strictly ascending list of exactly the inserted keys; the list is determined by the
  set of keys alone.
\<close>

theorem C6_all_keys_in_order:
  assumes "distinct (map fst kvs)"
  shows "\<exists>s. insert_all T (SkipList_init T) kvs = Some s \<and>
    allKeysInOrder s = Some (sorted_list_of_set (fst ` set kvs))"
proof -
  from insert_all_abs[OF abs_init assms, of T T] obtain s A where
    s: "insert_all T (SkipList_init T) kvs = Some s" and A: "abs_of s A"
    and keys: "fst ` set A = fst ` set kvs" by auto
  have "sorted_wrt (<) (map fst A)" using abs_sorted[OF A] .
  moreover have "set (map fst A) = fst ` set kvs" using keys by simp
  moreover have "sorted_wrt (<) (sorted_list_of_set (fst ` set kvs))"
    "set (sorted_list_of_set (fst ` set kvs)) = fst ` set kvs"
    by simp_all
  ultimately have "map fst A = sorted_list_of_set (fst ` set kvs)"
    using strict_sorted_equal by metis
  with abs_keys[OF A] s show ?thesis by simp
qed

theorem C6_witness:
  "distinct (map fst [(3 :: 32 word, 30 :: 32 word), (1, 10), (2, 20)]) \<and>
   (\<exists>s. insert_all unsigned_tmpl (SkipList_init unsigned_tmpl) [(3, 30), (1, 10), (2, 20)] = Some s \<and>
      allKeysInOrder s = Some (sorted_list_of_set (fst ` set [(3 :: 32 word, 30 :: 32 word), (1, 10), (2, 20)])))"
proof -
  have d: "distinct (map fst [(3 :: 32 word, 30 :: 32 word), (1, 10), (2, 20)])" by simp
  from C6_all_keys_in_order[OF d, of unsigned_tmpl] d show ?thesis by blast
qed

text \<open>
  Claim C7.  In every reachable skip list \<^verbatim>\<open>numLayers\<close> is at least 2, and the top layer
  holds the two sentinels only: \<^verbatim>\<open>head\<close> is a negative-infinity node whose \<^verbatim>\<open>next\<close> is
  \<^verbatim>\<open>tail\<close>, a positive-infinity node.  An \<^verbatim>\<open>insert\<close> that ends with \<open>p\<close> promotions leaves
  \<^verbatim>\<open>numLayers\<close> at least what it was and at most \<open>p\<close> more, and a write through a
  reference leaves it as it was.
\<close>

theorem C7_num_layers:
  assumes "reachable T s"
  shows "2 \<le> numLayers s \<and>
    (\<exists>h t. head s = Some h \<and> tail s = Some t \<and> next (store s h) = Some t \<and>
       n_inf (store s h) \<and> p_inf (store s t)) \<and>
    (\<forall>k v b s' t n p. insert_run T s k v = Some (b, s', t, n, p) \<longrightarrow>
       numLayers s \<le> numLayers s' \<and> numLayers s' \<le> numLayers s + p) \<and>
    (\<forall>r w. numLayers (assign r w s) = numLayers s)"
proof -
  from reachable_abs[OF assms] obtain A where A: "abs_of s A" by blast
  from abs_top_layer[OF A] have top: "2 \<le> num_layers s"
    "\<exists>h t. head s = Some h \<and> tail s = Some t \<and> nx s h = Some t \<and> ninf s h \<and> pinf s t"
    by blast+
  have "numLayers s \<le> numLayers s' \<and> numLayers s' \<le> numLayers s + p"
    if "insert_run T s k v = Some (b, s', t, n, p)" for k v b s' t n p
    using insert_run_cases[OF A that] top(1) by (cases b) (auto simp: numLayers_def)
  moreover have "numLayers (assign r w s) = numLayers s" for r w
    by (simp add: numLayers_def assign_def)
  ultimately show ?thesis using top by (simp add: numLayers_def)
qed

theorem C7_witness:
  "reachable unsigned_tmpl example_sl \<and> 2 \<le> numLayers example_sl \<and>
    (\<exists>h t. head example_sl = Some h \<and> tail example_sl = Some t \<and>
       next (store example_sl h) = Some t \<and>
       n_inf (store example_sl h) \<and> p_inf (store example_sl t)) \<and>
    (\<exists>s' t n p. insert_run unsigned_tmpl example_sl 3 4 = Some (True, s', t, n, p) \<and>
       numLayers example_sl \<le> numLayers s' \<and> numLayers s' \<le> numLayers example_sl + p) \<and>
    numLayers (assign 0 9 example_sl) = numLayers example_sl"
proof -
  from reachable_abs[OF example_reachable] obtain A where A: "abs_of example_sl A" by blast
  have "fst ` set A = {5}" using keys_abs(1)[OF A example_keys] by simp
  then have "(3 :: 32 word) \<notin> fst ` set A" by simp
  from abs_insert_new[OF A this, of unsigned_tmpl 4] obtain s' t n p where
    run: "insert_run unsigned_tmpl example_sl 3 4 = Some (True, s', t, n, p)" by blast
  from C7_num_layers[OF example_reachable] run example_reachable show ?thesis by blast
qed

lemma flipCoin_string_empty: "flipCoin_string [] i = False"
  by (simp add: flipCoin_string_def char_at0_def)

lemma flips_no_heads: "\<not> flipCoin T k 0 \<Longrightarrow> flips T k m 0 = 0"
  by (subst flips.simps) simp

text \<open>
  Claim C9.  For the empty string the character that the string overload of \<^verbatim>\<open>flipCoin\<close>
  folds is 0, and \<^verbatim>\<open>flipCoin\<close> returns false for every number of previous flips.  So in
  every reachable skip list with string keys that does not hold the empty string, inserting
  it succeeds with no promotion, leaves \<^verbatim>\<open>numLayers\<close> as it was, and the height of the empty
  string is 1 afterwards.
\<close>

theorem C9_empty_string_key:
  assumes "reachable string_tmpl s" "allKeysInOrder s = Some ks" "[] \<notin> set ks"
  shows "xor_from (char_at0 []) (tl []) = 0 \<and> (\<forall>i. flipCoin_string [] i = False) \<and>
    (\<exists>s' t n. insert_run string_tmpl s [] v = Some (True, s', t, n, 0) \<and>
       numLayers s' = numLayers s \<and> height s' [] = Some (Inr 1))"
proof -
  from reachable_abs[OF assms(1)] obtain A where A: "abs_of s A" by blast
  have nmem: "[] \<notin> fst ` set A" using keys_abs(1)[OF A assms(2)] assms(3) by simp
  have p: "flips string_tmpl [] (max_flips_of (num_keys s + 1)) 0 = 0"
    by (rule flips_no_heads) (simp add: string_tmpl_def flipCoin_string_empty)
  from abs_insert_new[OF A nmem, of string_tmpl v] obtain s' t n where
    run: "insert_run string_tmpl s [] v = Some (True, s', t, n, 0)"
    and A': "abs_of s' (ins_tower [] v (Suc 0) A)"
    and nl: "num_layers s' = max (num_layers s) (0 + 2)"
    unfolding p by blast
  have "height s' [] = Some (Inr 1)"
    using abs_height[OF A', of "[]"] map_of_ins_tower[OF nmem, of v "Suc 0" "[]"] by simp
  moreover have "numLayers s' = numLayers s"
    using nl abs_top_layer[OF A] by (simp add: numLayers_def)
  ultimately show ?thesis
    using run flipCoin_string_empty by (simp add: char_at0_def)
qed

theorem C9_witness:
  "reachable string_tmpl (SkipList_init string_tmpl) \<and>
   allKeysInOrder (SkipList_init string_tmpl) = Some [] \<and> [] \<notin> set ([] :: string list) \<and>
   xor_from (char_at0 []) (tl []) = 0 \<and> (\<forall>i. flipCoin_string [] i = False) \<and>
    (\<exists>s' t n. insert_run string_tmpl (SkipList_init string_tmpl) [] ''empty'' = Some (True, s', t, n, 0) \<and>
       numLayers s' = numLayers (SkipList_init string_tmpl) \<and> height s' [] = Some (Inr 1))"
proof -
  have m: "[] \<notin> set ([] :: string list)" by simp
  from C9_empty_string_key[OF reachable.init init_keys m, of "''empty''"]
  show ?thesis using reachable.init[of string_tmpl] init_keys[of string_tmpl] by simp
qed

text \<open>
  Claim C4.  Starting from the empty skip list with unsigned keys, inserting 0 to 9 in
  ascending order and recording the height of each key after its insert gives
  1, 2, 1, 3, 1, 2, 1, 4, 1, 2; inserting 255 next succeeds, its height is 12 and the
  number of layers is then 13.
\<close>

theorem C4_involved_heights:
  "involved_heights [0, 1, 2, 3, 4, 5, 6, 7, 8, 9] 255 =
     Some ([Inr 1, Inr 2, Inr 1, Inr 3, Inr 1, Inr 2, Inr 1, Inr 4, Inr 1, Inr 2],
           True, Inr 12, 13)"
  by (simp add: eval_simps cong: eval_congs del: proj_fold)

text \<open>
  Claim C1, as the code behaves.  The header of the class says that \<^verbatim>\<open>isSmallestKey\<close>
  and \<^verbatim>\<open>isLargestKey\<close> throw when the key is not in the skip list, but neither
  function has a \<^verbatim>\<open>throw\<close>: on the empty skip list, where no key is present, both return
  a boolean.  They compare with the key stored in a sentinel, which is \<^verbatim>\<open>Key()\<close>, so for
  the absent key 0 they even return true.  \<^verbatim>\<open>find\<close> does throw there.
\<close>

theorem C1_absent_key_returns_bool:
  "isSmallestKey (SkipList_init unsigned_tmpl) 5 = Some False \<and>
   isLargestKey (SkipList_init unsigned_tmpl) 5 = Some False \<and>
   isSmallestKey (SkipList_init unsigned_tmpl) 0 = Some True \<and>
   isLargestKey (SkipList_init unsigned_tmpl) 0 = Some True \<and>
   find_sl (SkipList_init unsigned_tmpl) 5 = Some (Inl RuntimeException) \<and>
   find_sl (SkipList_init unsigned_tmpl) 0 = Some (Inl RuntimeException)"
  by (simp add: eval_simps cong: eval_congs del: proj_fold)

end
